theory Spec2Isabelle
  imports Main "HOL-Library.Word"
begin

unbundle bit_operations_syntax

section \<open>Layout constants of main.c\<close>

text \<open>
  The program stores one table of fixed-width rows in a file of 4096-byte pages.
  All sizes are \<open>uint32_t\<close> constants of the source; they are kept as 32-bit words.
  \<open>ID_SIZE\<close>, \<open>USERNAME_SIZE\<close> and \<open>EMAIL_SIZE\<close> are the \<open>sizeof\<close> of the fields
  \<open>uint32_t id\<close>, \<open>char username[32 + 1]\<close> and \<open>char email[255 + 1]\<close>.
\<close>

type_synonym byte = "8 word"
type_synonym u32 = "32 word"

definition COLUMN_USERNAME_SIZE :: u32 where
  "COLUMN_USERNAME_SIZE = 32"

definition COLUMN_EMAIL_SIZE :: u32 where
  "COLUMN_EMAIL_SIZE = 255"

definition ID_SIZE :: u32 where
  "ID_SIZE = 4"

definition USERNAME_SIZE :: u32 where
  "USERNAME_SIZE = COLUMN_USERNAME_SIZE + 1"

definition EMAIL_SIZE :: u32 where
  "EMAIL_SIZE = COLUMN_EMAIL_SIZE + 1"

definition ID_OFFSET :: u32 where
  "ID_OFFSET = 0"

definition USERNAME_OFFSET :: u32 where
  "USERNAME_OFFSET = ID_OFFSET + ID_SIZE"

definition EMAIL_OFFSET :: u32 where
  "EMAIL_OFFSET = USERNAME_OFFSET + USERNAME_SIZE"

definition ROW_SIZE :: u32 where
  "ROW_SIZE = ID_SIZE + USERNAME_SIZE + EMAIL_SIZE"

definition PAGE_SIZE :: u32 where
  "PAGE_SIZE = 4096"

definition TABLE_MAX_PAGES :: u32 where
  "TABLE_MAX_PAGES = 100"

definition ROWS_PER_PAGE :: u32 where
  "ROWS_PER_PAGE = PAGE_SIZE div ROW_SIZE"

definition TABLE_MAX_ROWS :: u32 where
  "TABLE_MAX_ROWS = ROWS_PER_PAGE * TABLE_MAX_PAGES"

section \<open>Rows and the record codec\<close>

text \<open>
  A \<open>Row\<close> is the C struct: the id and the two character arrays. The arrays are byte
  lists; a row of the program has arrays of exactly \<open>USERNAME_SIZE\<close> and \<open>EMAIL_SIZE\<close>
  bytes, which \<open>row_ok\<close> states. The field \<open>id\<close> is named \<open>id_col\<close> here.
\<close>

record Row =
  id_col :: u32
  username :: "byte list"
  email :: "byte list"

definition row_ok :: "Row \<Rightarrow> bool" where
  "row_ok r \<longleftrightarrow> length (username r) = unat USERNAME_SIZE \<and> length (email r) = unat EMAIL_SIZE"

text \<open>
  The object representation of a \<open>uint32_t\<close>, as \<open>memcpy\<close> moves it: four bytes, least
  significant first (the byte order of the hosts the program is built for).
\<close>

definition bytes_of_u32 :: "u32 \<Rightarrow> byte list" where
  "bytes_of_u32 w = [ucast w, ucast (drop_bit 8 w), ucast (drop_bit 16 w), ucast (drop_bit 24 w)]"

fun u32_of_bytes :: "byte list \<Rightarrow> u32" where
  "u32_of_bytes [] = 0"
| "u32_of_bytes (b # bs) = ucast b OR push_bit 8 (u32_of_bytes bs)"

text \<open>
  \<open>memcpy(dst + off, src, n)\<close> on a buffer \<open>dst\<close>: the \<open>n\<close> bytes at \<open>off\<close> are replaced
  by the first \<open>n\<close> bytes of \<open>src\<close>. \<open>memcpy(&field, src + off, n)\<close> reads them back.
\<close>

definition memcpy_to :: "byte list \<Rightarrow> nat \<Rightarrow> byte list \<Rightarrow> nat \<Rightarrow> byte list" where
  "memcpy_to dst off src n = take off dst @ take n src @ drop (off + n) dst"

definition memcpy_from :: "byte list \<Rightarrow> nat \<Rightarrow> nat \<Rightarrow> byte list" where
  "memcpy_from src off n = take n (drop off src)"

text \<open>
  \<open>serialize_row(source, destination)\<close>, with the pointer \<open>destination\<close> given as a
  buffer and an offset into it; the result is the buffer after the three copies.
\<close>

definition serialize_row :: "Row \<Rightarrow> byte list \<Rightarrow> nat \<Rightarrow> byte list" where
  "serialize_row source buf dest =
     (let b1 = memcpy_to buf (dest + unat ID_OFFSET) (bytes_of_u32 (id_col source)) (unat ID_SIZE);
          b2 = memcpy_to b1 (dest + unat USERNAME_OFFSET) (username source) (unat USERNAME_SIZE);
          b3 = memcpy_to b2 (dest + unat EMAIL_OFFSET) (email source) (unat EMAIL_SIZE)
      in b3)"

definition deserialize_row :: "byte list \<Rightarrow> nat \<Rightarrow> Row" where
  "deserialize_row buf source =
     \<lparr> id_col = u32_of_bytes (memcpy_from buf (source + unat ID_OFFSET) (unat ID_SIZE)),
       username = memcpy_from buf (source + unat USERNAME_OFFSET) (unat USERNAME_SIZE),
       email = memcpy_from buf (source + unat EMAIL_OFFSET) (unat EMAIL_SIZE) \<rparr>"

section \<open>Files, the pager and the table\<close>

text \<open>
  The ways the process stops itself or leaves defined behaviour. \<open>OUT_OF_BOUNDS\<close> and
  \<open>FLUSH_EMPTY_PAGE\<close> are the two \<open>exit(EXIT_FAILURE)\<close> paths that depend on the
  program's own state; \<open>UNDEFINED_BEHAVIOUR\<close> stands for an access past the end of the
  array \<open>pages\<close> or through a null pointer, for which C defines no result.
  The system calls are modelled on a regular file held as a byte list, where \<open>lseek\<close>,
  \<open>read\<close>, \<open>write\<close> and \<open>close\<close> do not fail.
\<close>

datatype fatal = OUT_OF_BOUNDS | FLUSH_EMPTY_PAGE | UNDEFINED_BEHAVIOUR

datatype EXECUTE_RESULT = EXECUTE_SUCCESS | EXECUTE_TABLE_EMPTY | EXECUTE_TABLE_FULL

datatype StatementType = STATEMENT_INSERT | STATEMENT_SELECT

record Statement =
  type :: StatementType
  row_to_insert :: "Row option"

text \<open>
  \<open>lseek(fd, off, SEEK_SET)\<close> followed by \<open>read(fd, buf, n)\<close>: the bytes the file has
  from \<open>off\<close> on, at most \<open>n\<close>, replace the front of \<open>buf\<close>; a short read leaves the
  rest of \<open>buf\<close> as it was.
\<close>

definition read_file :: "byte list \<Rightarrow> nat \<Rightarrow> byte list \<Rightarrow> nat \<Rightarrow> byte list" where
  "read_file file off buf n = (let bs = take n (drop off file) in bs @ drop (length bs) buf)"

text \<open>
  \<open>lseek(fd, off, SEEK_SET)\<close> followed by \<open>write(fd, buf, n)\<close>: the file after the
  call. A write that starts past the end of the file leaves a gap that reads as zeros.
\<close>

definition write_file :: "byte list \<Rightarrow> nat \<Rightarrow> byte list \<Rightarrow> nat \<Rightarrow> byte list" where
  "write_file file off buf n =
     take off (file @ replicate (off - length file) 0) @ take n buf @ drop (off + n) file"

text \<open>
  The pager. The descriptor \<open>fd\<close> is represented by the content of the file it is open
  on; \<open>pages\<close> is the array of page pointers, \<open>None\<close> for \<open>NULL\<close>.
\<close>

record Pager =
  fd :: "byte list"
  file_length :: u32
  pages :: "byte list option list"

record Table =
  num_rows :: u32
  pager :: Pager

text \<open>
  \<open>malloc(n)\<close> returns a block of \<open>n\<close> bytes and does not initialise it. The byte
  found at index \<open>k\<close> of the block that \<open>get_page\<close> obtains for page \<open>p\<close> is \<open>mem p k\<close>,
  for an arbitrary \<open>mem\<close>: within one session a page is allocated at most once, so this
  covers every behaviour of the allocator.
\<close>

type_synonym heap = "u32 \<Rightarrow> nat \<Rightarrow> byte"

definition malloc :: "heap \<Rightarrow> u32 \<Rightarrow> nat \<Rightarrow> byte list" where
  "malloc mem p n = map (mem p) [0 ..< n]"

text \<open>
  \<open>pager_open\<close> on a file with content \<open>file\<close> (empty when \<open>open\<close> has just created
  it). The \<open>off_t\<close> result of \<open>lseek\<close> is stored in a \<open>uint32_t\<close>.
\<close>

definition pager_open :: "byte list \<Rightarrow> Pager" where
  "pager_open file =
     \<lparr> fd = file, file_length = of_nat (length file),
       pages = replicate (unat TABLE_MAX_PAGES) None \<rparr>"

text \<open>
  \<open>db_open\<close>. \<open>db_open_table\<close> is the table the function has built in its local
  variable \<open>table\<close> when control reaches its closing brace. The function has no
  \<open>return\<close> statement, so it hands no value to its caller: the value of the call
  \<open>db_open(filename)\<close>, which \<open>main\<close> stores and uses as its table, is undefined.
\<close>

definition db_open_table :: "byte list \<Rightarrow> Table" where
  "db_open_table file =
     (let pgr = pager_open file;
          n = file_length pgr div ROW_SIZE
      in \<lparr> num_rows = n, pager = pgr \<rparr>)"

definition db_open :: "byte list \<Rightarrow> fatal + Table" where
  "db_open file = (let table = db_open_table file in Inl UNDEFINED_BEHAVIOUR)"

text \<open>
  \<open>get_page\<close>: the result is the pager with the page resident; the pointer it returns
  is \<open>pages[page_num]\<close> of that pager. (The variable \<open>pgr\<close> is the source's \<open>pager\<close>.)
  The guard of the source is \<open>page_num > TABLE_MAX_PAGES\<close>; a page number that passes it
  and is not an index of the array makes \<open>pages[page_num]\<close> an access past the array.
\<close>

definition get_page :: "Pager \<Rightarrow> u32 \<Rightarrow> heap \<Rightarrow> fatal + Pager" where
  "get_page pgr page_num mem =
     (if page_num > TABLE_MAX_PAGES then Inl OUT_OF_BOUNDS
      else if unat page_num \<ge> length (pages pgr) then Inl UNDEFINED_BEHAVIOUR
      else if pages pgr ! unat page_num = None then
        (let page = malloc mem page_num (unat PAGE_SIZE);
             num_pages = (file_length pgr + PAGE_SIZE - 1) div PAGE_SIZE;
             page = (if page_num \<le> num_pages
                     then read_file (fd pgr) (unat (page_num * PAGE_SIZE)) page (unat PAGE_SIZE)
                     else page)
         in Inr (pgr\<lparr>pages := (pages pgr)[unat page_num := Some page]\<rparr>))
      else Inr pgr)"

definition pager_flush :: "Pager \<Rightarrow> u32 \<Rightarrow> u32 \<Rightarrow> fatal + Pager" where
  "pager_flush pgr page_num sz =
     (if unat page_num \<ge> length (pages pgr) then Inl UNDEFINED_BEHAVIOUR
      else case pages pgr ! unat page_num of
        None \<Rightarrow> Inl FLUSH_EMPTY_PAGE
      | Some page \<Rightarrow>
          Inr (pgr\<lparr>fd := write_file (fd pgr) (unat (page_num * PAGE_SIZE)) page (unat sz)\<rparr>))"

function close_full_pages :: "u32 \<Rightarrow> u32 \<Rightarrow> Pager \<Rightarrow> fatal + Pager" where
  "close_full_pages i num_full_pages pgr =
     (if i < num_full_pages then
        (if unat i \<ge> length (pages pgr) then Inl UNDEFINED_BEHAVIOUR
         else if pages pgr ! unat i = None then close_full_pages (i + 1) num_full_pages pgr
         else case pager_flush pgr i PAGE_SIZE of
           Inl e \<Rightarrow> Inl e
         | Inr pgr' \<Rightarrow>
             close_full_pages (i + 1) num_full_pages (pgr'\<lparr>pages := (pages pgr')[unat i := None]\<rparr>))
      else Inr pgr)"
  by pat_completeness auto
termination
proof -
  have step: "unat n - unat (i + 1) < unat n - unat i" if "i < n" for i n :: u32
    using that by unat_arith
  show ?thesis
    by (relation "measure (\<lambda>(i, n, p). unat n - unat i)") (auto intro: step)
qed

declare close_full_pages.simps [simp del]

text \<open>
  \<open>db_close\<close>. The result is the content of the file once the descriptor is closed.
  The last loop of the source frees the buffers that are still resident and touches
  neither the file nor the table, so it has no counterpart here.
\<close>

definition db_close :: "Table \<Rightarrow> fatal + byte list" where
  "db_close table =
     (let pgr = pager table;
          num_full_pages = num_rows table div ROWS_PER_PAGE
      in case close_full_pages 0 num_full_pages pgr of
           Inl e \<Rightarrow> Inl e
         | Inr pgr \<Rightarrow>
             (let num_additional_rows = num_rows table mod ROWS_PER_PAGE
              in case (if num_additional_rows \<noteq> 0 then
                         (let page_num = num_full_pages
                          in if unat page_num \<ge> length (pages pgr) then Inl UNDEFINED_BEHAVIOUR
                             else if pages pgr ! unat page_num \<noteq> None then
                               (case pager_flush pgr page_num PAGE_SIZE of
                                  Inl e \<Rightarrow> Inl e
                                | Inr pgr' \<Rightarrow>
                                    Inr (pgr'\<lparr>pages := (pages pgr')[unat page_num := None]\<rparr>))
                             else Inr pgr)
                       else Inr pgr) of
                   Inl e \<Rightarrow> Inl e
                 | Inr pgr \<Rightarrow> Inr (fd pgr)))"

text \<open>
  \<open>row_slot\<close>: the pointer \<open>page + byte_offset\<close> it returns is given as the page number
  and the byte offset, next to the table whose pager now holds the page.
\<close>

definition row_slot :: "Table \<Rightarrow> u32 \<Rightarrow> heap \<Rightarrow> fatal + (Table \<times> u32 \<times> u32)" where
  "row_slot table row_num mem =
     (let page_num = row_num div ROWS_PER_PAGE
      in case get_page (pager table) page_num mem of
           Inl e \<Rightarrow> Inl e
         | Inr pgr \<Rightarrow>
             (let row_offset = row_num mod ROWS_PER_PAGE;
                  byte_offset = row_offset * ROW_SIZE
              in Inr (table\<lparr>pager := pgr\<rparr>, page_num, byte_offset)))"

text \<open>
  \<open>execute_insert\<close>. The row is written through the pointer of \<open>row_slot\<close>; a null
  \<open>row_to_insert\<close> or a null page would be dereferenced there.
\<close>

definition execute_insert :: "Statement \<Rightarrow> Table \<Rightarrow> heap \<Rightarrow> fatal + (EXECUTE_RESULT \<times> Table)" where
  "execute_insert statement table mem =
     (if num_rows table \<ge> TABLE_MAX_ROWS then Inr (EXECUTE_TABLE_FULL, table)
      else case row_slot table (num_rows table) mem of
        Inl e \<Rightarrow> Inl e
      | Inr (table, page_num, byte_offset) \<Rightarrow>
          (case (row_to_insert statement, pages (pager table) ! unat page_num) of
             (Some row, Some page) \<Rightarrow>
               (let page = serialize_row row page (unat byte_offset);
                    table = table\<lparr>pager := (pager table)
                                \<lparr>pages := (pages (pager table))[unat page_num := Some page]\<rparr>\<rparr>
                in Inr (EXECUTE_SUCCESS, table\<lparr>num_rows := num_rows table + 1\<rparr>))
           | _ \<Rightarrow> Inl UNDEFINED_BEHAVIOUR))"

text \<open>
  The body of the loop of \<open>execute_select\<close>: \<open>deserialize_row(&row, row_slot(table, i))\<close>.
\<close>

definition select_row :: "Table \<Rightarrow> u32 \<Rightarrow> heap \<Rightarrow> fatal + (Row \<times> Table)" where
  "select_row table i mem =
     (case row_slot table i mem of
        Inl e \<Rightarrow> Inl e
      | Inr (table, page_num, byte_offset) \<Rightarrow>
          (case pages (pager table) ! unat page_num of
             None \<Rightarrow> Inl UNDEFINED_BEHAVIOUR
           | Some page \<Rightarrow> Inr (deserialize_row page (unat byte_offset), table)))"

text \<open>
  \<open>print_row\<close> appends the row it prints to the output \<open>out\<close>. It prints \<open>username\<close>
  and \<open>email\<close> with \<open>%s\<close>, which reads each array up to its first NUL; an array that
  holds no NUL is read past its end.
\<close>

definition print_row :: "Row \<Rightarrow> Row list \<Rightarrow> fatal + Row list" where
  "print_row row out =
     (if 0 \<in> set (username row) \<and> 0 \<in> set (email row) then Inr (out @ [row])
      else Inl UNDEFINED_BEHAVIOUR)"

text \<open>
  The loop of \<open>execute_select\<close>, from row \<open>i\<close> on.
\<close>

function select_loop :: "u32 \<Rightarrow> Table \<Rightarrow> heap \<Rightarrow> Row list \<Rightarrow> fatal + (Row list \<times> Table)" where
  "select_loop i table mem out =
     (if i < num_rows table then
        (case select_row table i mem of
           Inl e \<Rightarrow> Inl e
         | Inr (row, table') \<Rightarrow>
             (case print_row row out of
                Inl e \<Rightarrow> Inl e
              | Inr out' \<Rightarrow> select_loop (i + 1) table' mem out'))
      else Inr (out, table))"
  by pat_completeness auto
termination
proof -
  have step: "unat (num_rows table') - unat (i + 1) < unat (num_rows table) - unat i"
    if "i < num_rows table" and "select_row table i mem = Inr (row, table')"
    for i :: u32 and table table' :: Table and mem :: heap and row :: Row
  proof -
    from that(2) have "num_rows table' = num_rows table"
      by (auto simp: select_row_def row_slot_def Let_def split: sum.splits option.splits)
    moreover from that(1) have "unat (num_rows table) - unat (i + 1) < unat (num_rows table) - unat i"
      by unat_arith
    ultimately show ?thesis by simp
  qed
  show ?thesis
    by (relation "measure (\<lambda>(i, t, m, out). unat (num_rows t) - unat i)") (auto intro: step)
qed

declare select_loop.simps [simp del]

definition execute_select :: "Statement \<Rightarrow> Table \<Rightarrow> heap \<Rightarrow> fatal + (EXECUTE_RESULT \<times> Row list \<times> Table)" where
  "execute_select statement table mem =
     (if num_rows table = 0 then Inr (EXECUTE_TABLE_EMPTY, [], table)
      else case select_loop 0 table mem [] of
        Inl e \<Rightarrow> Inl e
      | Inr (out, table) \<Rightarrow> Inr (EXECUTE_SUCCESS, out, table))"

definition execute_statement :: "Statement \<Rightarrow> Table \<Rightarrow> heap \<Rightarrow> fatal + (EXECUTE_RESULT \<times> Row list \<times> Table)" where
  "execute_statement statement table mem =
     (case type statement of
        STATEMENT_INSERT \<Rightarrow>
          (case execute_insert statement table mem of
             Inl e \<Rightarrow> Inl e
           | Inr (res, table) \<Rightarrow> Inr (res, [], table))
      | STATEMENT_SELECT \<Rightarrow> execute_select statement table mem)"

text \<open>
  The statement \<open>prepare_insert\<close> builds for a row, and the loop of \<open>main\<close> over a list
  of prepared statements: each is executed on the table the previous one left, and the
  result code is recorded with the rows printed.
\<close>

definition insert_statement :: "Row \<Rightarrow> Statement" where
  "insert_statement row = \<lparr> type = STATEMENT_INSERT, row_to_insert = Some row \<rparr>"

definition select_statement :: Statement where
  "select_statement = \<lparr> type = STATEMENT_SELECT, row_to_insert = None \<rparr>"

fun run_statements ::
  "Statement list \<Rightarrow> Table \<Rightarrow> heap \<Rightarrow> fatal + ((EXECUTE_RESULT \<times> Row list) list \<times> Table)" where
  "run_statements [] table mem = Inr ([], table)"
| "run_statements (s # ss) table mem =
     (case execute_statement s table mem of
        Inl e \<Rightarrow> Inl e
      | Inr (res, out, table') \<Rightarrow>
          (case run_statements ss table' mem of
             Inl e \<Rightarrow> Inl e
           | Inr (log, table'') \<Rightarrow> Inr ((res, out) # log, table'')))"

text \<open>
  A session of \<open>main\<close>: the table is the value of the call of \<open>db_open\<close>, the prepared
  statements are executed in turn, and \<open>.exit\<close> closes the table. The result is the log
  of the statements and the file the session leaves.
\<close>

definition main_session ::
  "byte list \<Rightarrow> Statement list \<Rightarrow> heap \<Rightarrow> fatal + ((EXECUTE_RESULT \<times> Row list) list \<times> byte list)" where
  "main_session file ss mem =
     (case db_open file of
        Inl e \<Rightarrow> Inl e
      | Inr table \<Rightarrow>
          (case run_statements ss table mem of
             Inl e \<Rightarrow> Inl e
           | Inr (log, table') \<Rightarrow>
               (case db_close table' of
                  Inl e \<Rightarrow> Inl e
                | Inr file' \<Rightarrow> Inr (log, file'))))"

section \<open>What a table holds\<close>

text \<open>
  The remaining definitions describe states; they are used to state and prove the
  properties below and are not functions of the source.

  \<open>pager_ok\<close>: the array has \<open>TABLE_MAX_PAGES\<close> entries and every resident page is a
  block of \<open>PAGE_SIZE\<close> bytes, as the C types have it. \<open>row_strings\<close>: both character
  arrays of a row hold a NUL, so they hold strings of at most 32 and 255 bytes.

  \<open>page_content pgr mem p\<close>: the bytes of page \<open>p\<close> as \<open>get_page\<close> presents them, the
  resident buffer if there is one, otherwise the block \<open>get_page\<close> would allocate and
  fill. \<open>row_at t mem i\<close>: the row decoded from the slot of row \<open>i\<close>.

  \<open>heap_of b\<close>: an allocator whose blocks are filled with the byte \<open>b\<close>.
\<close>

definition pager_ok :: "Pager \<Rightarrow> bool" where
  "pager_ok pgr \<longleftrightarrow>
     length (pages pgr) = unat TABLE_MAX_PAGES \<and>
     (\<forall>e \<in> set (pages pgr). case e of None \<Rightarrow> True | Some page \<Rightarrow> length page = unat PAGE_SIZE)"

definition page_content :: "Pager \<Rightarrow> heap \<Rightarrow> u32 \<Rightarrow> byte list" where
  "page_content pgr mem p =
     (case pages pgr ! unat p of
        Some page \<Rightarrow> page
      | None \<Rightarrow>
          if p \<le> (file_length pgr + PAGE_SIZE - 1) div PAGE_SIZE
          then read_file (fd pgr) (unat (p * PAGE_SIZE)) (malloc mem p (unat PAGE_SIZE))
                 (unat PAGE_SIZE)
          else malloc mem p (unat PAGE_SIZE))"

definition row_at :: "Table \<Rightarrow> heap \<Rightarrow> u32 \<Rightarrow> Row" where
  "row_at t mem i =
     deserialize_row (page_content (pager t) mem (i div ROWS_PER_PAGE))
       (unat (i mod ROWS_PER_PAGE * ROW_SIZE))"

definition heap_of :: "byte \<Rightarrow> heap" where
  "heap_of b p k = b"

definition row_strings :: "Row \<Rightarrow> bool" where
  "row_strings r \<longleftrightarrow> 0 \<in> set (username r) \<and> 0 \<in> set (email r)"

section \<open>Facts about the constants\<close>

lemma ROW_SIZE_val: "ROW_SIZE = 293"
  by (simp add: ROW_SIZE_def ID_SIZE_def USERNAME_SIZE_def EMAIL_SIZE_def
      COLUMN_USERNAME_SIZE_def COLUMN_EMAIL_SIZE_def)

lemma ROWS_PER_PAGE_val: "ROWS_PER_PAGE = 13"
  by (simp add: ROWS_PER_PAGE_def ROW_SIZE_val PAGE_SIZE_def)

lemma TABLE_MAX_ROWS_val: "TABLE_MAX_ROWS = 1300"
  by (simp add: TABLE_MAX_ROWS_def ROWS_PER_PAGE_val TABLE_MAX_PAGES_def)

lemma offsets_val:
  "unat ID_OFFSET = 0" "unat USERNAME_OFFSET = 4" "unat EMAIL_OFFSET = 37"
  "unat ID_SIZE = 4" "unat USERNAME_SIZE = 33" "unat EMAIL_SIZE = 256"
  by (simp_all add: ID_OFFSET_def USERNAME_OFFSET_def EMAIL_OFFSET_def ID_SIZE_def
      USERNAME_SIZE_def EMAIL_SIZE_def COLUMN_USERNAME_SIZE_def COLUMN_EMAIL_SIZE_def)

lemma unat_ROW_SIZE: "unat ROW_SIZE = 293"
  by (simp add: ROW_SIZE_val)

lemma unat_PAGE_SIZE: "unat PAGE_SIZE = 4096"
  by (simp add: PAGE_SIZE_def)

section \<open>The record codec\<close>

lemma u32_of_bytes_of_u32: "u32_of_bytes (bytes_of_u32 w) = w"
  unfolding bytes_of_u32_def
  apply simp
  apply (rule bit_word_eqI)
  subgoal for n
    apply (cases "n < 8"; cases "n < 16"; cases "n < 24")
    apply (auto simp add: bit_simps)
    done
  done

lemma length_bytes_of_u32: "length (bytes_of_u32 w) = 4"
  by (simp add: bytes_of_u32_def)

lemma length_memcpy_to:
  "off + n \<le> length dst \<Longrightarrow> n \<le> length src \<Longrightarrow> length (memcpy_to dst off src n) = length dst"
  by (simp add: memcpy_to_def)

lemma memcpy_from_to_same:
  "off + n \<le> length dst \<Longrightarrow> n \<le> length src \<Longrightarrow>
   memcpy_from (memcpy_to dst off src n) off n = take n src"
  by (simp add: memcpy_from_def memcpy_to_def)

lemma memcpy_from_to_other:
  "off + n \<le> length dst \<Longrightarrow> n \<le> length src \<Longrightarrow> off' + n' \<le> off \<or> off + n \<le> off' \<Longrightarrow>
   memcpy_from (memcpy_to dst off src n) off' n' = memcpy_from dst off' n'"
  apply (simp add: memcpy_from_def memcpy_to_def)
  apply (erule disjE)
   apply (simp add: take_drop)
  apply (simp add: drop_take)
  done

lemma length_serialize_row:
  assumes "row_ok r" "dest + unat ROW_SIZE \<le> length buf"
  shows "length (serialize_row r buf dest) = length buf"
  using assms
  by (simp add: serialize_row_def Let_def row_ok_def offsets_val ROW_SIZE_val
      length_memcpy_to length_bytes_of_u32)

lemma deserialize_serialize:
  assumes "row_ok r" "dest + unat ROW_SIZE \<le> length buf"
  shows "deserialize_row (serialize_row r buf dest) dest = r"
  using assms
  by (simp add: serialize_row_def deserialize_row_def Let_def row_ok_def offsets_val ROW_SIZE_val
      length_memcpy_to length_bytes_of_u32 memcpy_from_to_same memcpy_from_to_other
      u32_of_bytes_of_u32)

lemma deserialize_serialize_other:
  assumes "row_ok r" "dest + unat ROW_SIZE \<le> length buf"
    and "src + unat ROW_SIZE \<le> dest \<or> dest + unat ROW_SIZE \<le> src"
  shows "deserialize_row (serialize_row r buf dest) src = deserialize_row buf src"
  using assms(3)
proof
  assume "src + unat ROW_SIZE \<le> dest"
  with assms(1,2) show ?thesis
    by (simp add: serialize_row_def deserialize_row_def Let_def row_ok_def offsets_val ROW_SIZE_val
      length_memcpy_to length_bytes_of_u32 memcpy_from_to_other)
next
  assume "dest + unat ROW_SIZE \<le> src"
  with assms(1,2) show ?thesis
    by (simp add: serialize_row_def deserialize_row_def Let_def row_ok_def offsets_val ROW_SIZE_val
      length_memcpy_to length_bytes_of_u32 memcpy_from_to_other)
qed

lemma serialize_row_bytes:
  assumes "row_ok r" "dest + unat ROW_SIZE \<le> length buf"
  shows "serialize_row r buf dest =
    take dest buf @ bytes_of_u32 (id_col r) @ username r @ email r @ drop (dest + unat ROW_SIZE) buf"
proof -
  have len: "length (username r) = 33" "length (email r) = 256" "dest + 293 \<le> length buf"
    using assms by (simp_all add: row_ok_def offsets_val unat_ROW_SIZE)
  have a: "dest + 4 + 33 = dest + 37" "dest + 37 + 256 = dest + 293" "dest + 4 + 289 = dest + 293"
    by simp_all
  show ?thesis
    using len
    by (simp add: serialize_row_def Let_def offsets_val unat_ROW_SIZE memcpy_to_def
      length_bytes_of_u32 min_def a add.commute [of 293 dest])
qed

section \<open>Word arithmetic of rows and pages\<close>

lemma unat_TABLE_MAX_PAGES: "unat TABLE_MAX_PAGES = 100"
  by (simp add: TABLE_MAX_PAGES_def)

lemma unat_row_page: "unat (n div ROWS_PER_PAGE) = unat n div 13"
  by (simp add: ROWS_PER_PAGE_val unat_div)

lemma unat_row_offset: "unat (n mod ROWS_PER_PAGE) = unat n mod 13"
  by (simp add: ROWS_PER_PAGE_val unat_mod)

lemma unat_byte_offset: "unat (n mod ROWS_PER_PAGE * ROW_SIZE) = (unat n mod 13) * 293"
proof -
  have "unat n mod 13 < 13" by simp
  then have "(unat n mod 13) * 293 < 13 * 293" by (simp only: mult_less_cancel2) simp
  then have "unat (n mod ROWS_PER_PAGE) * unat ROW_SIZE < 2 ^ LENGTH(32)"
    by (simp add: unat_row_offset unat_ROW_SIZE)
  then show ?thesis
    by (simp add: unat_mult_lem [THEN iffD1] unat_row_offset unat_ROW_SIZE)
qed

lemma row_page_bound: "n < TABLE_MAX_ROWS \<Longrightarrow> unat n div 13 < 100"
  by (simp add: TABLE_MAX_ROWS_val word_less_nat_alt)

lemma row_page_in_bounds: "n < TABLE_MAX_ROWS \<Longrightarrow> n div ROWS_PER_PAGE < TABLE_MAX_PAGES"
  by (simp add: word_less_nat_alt unat_row_page unat_TABLE_MAX_PAGES row_page_bound)

lemma unat_page_offset: "p \<le> TABLE_MAX_PAGES \<Longrightarrow> unat (p * PAGE_SIZE) = unat p * 4096"
proof -
  assume "p \<le> TABLE_MAX_PAGES"
  then have "unat p \<le> 100" by (simp add: word_le_nat_alt unat_TABLE_MAX_PAGES)
  then have "unat p * unat PAGE_SIZE < 2 ^ LENGTH(32)" by (simp add: unat_PAGE_SIZE)
  then show ?thesis
    by (simp add: unat_mult_lem [THEN iffD1] unat_PAGE_SIZE)
qed

lemma unat_succ_row: "n < TABLE_MAX_ROWS \<Longrightarrow> unat (n + 1) = unat n + 1"
proof -
  assume "n < TABLE_MAX_ROWS"
  then have "unat n < 1300" by (simp add: TABLE_MAX_ROWS_val word_less_nat_alt)
  then have "unat n + unat (1 :: u32) < 2 ^ LENGTH(32)" by simp
  then show ?thesis
    by (simp add: unat_add_lem [THEN iffD1])
qed

section \<open>The row count\<close>

lemma row_slot_Inr:
  assumes "row_slot t n mem = Inr (t', p, off)"
  shows "num_rows t' = num_rows t" "p = n div ROWS_PER_PAGE" "off = n mod ROWS_PER_PAGE * ROW_SIZE"
    "get_page (pager t) p mem = Inr (pager t')"
  using assms by (auto simp: row_slot_def Let_def split: sum.splits)

lemma execute_insert_full:
  "TABLE_MAX_ROWS \<le> num_rows t \<Longrightarrow> execute_insert s t mem = Inr (EXECUTE_TABLE_FULL, t)"
  by (simp add: execute_insert_def)

lemma execute_insert_not_full:
  assumes "num_rows t < TABLE_MAX_ROWS" "execute_insert s t mem = Inr (res, t')"
  shows "res = EXECUTE_SUCCESS" "num_rows t' = num_rows t + 1"
proof -
  from assms(1) have nf: "\<not> TABLE_MAX_ROWS \<le> num_rows t" by simp
  from assms(2) nf have
    "res = EXECUTE_SUCCESS \<and>
     (\<exists>t1 p off. row_slot t (num_rows t) mem = Inr (t1, p, off) \<and> num_rows t' = num_rows t1 + 1)"
    by (auto simp: execute_insert_def Let_def split: sum.splits option.splits prod.splits)
  then obtain t1 p off where res: "res = EXECUTE_SUCCESS"
    and slot: "row_slot t (num_rows t) mem = Inr (t1, p, off)"
    and t': "num_rows t' = num_rows t1 + 1"
    by blast
  from res show "res = EXECUTE_SUCCESS" .
  from row_slot_Inr(1) [OF slot] t' show "num_rows t' = num_rows t + 1" by simp
qed

lemma select_row_Inr:
  assumes "select_row t i mem = Inr (row, t')"
  shows "num_rows t' = num_rows t"
proof -
  from assms obtain p off where "row_slot t i mem = Inr (t', p, off)"
    by (simp add: select_row_def split: sum.splits option.splits prod.splits)
  then show ?thesis by (rule row_slot_Inr(1))
qed

lemma select_loop_num_rows:
  "select_loop i t mem out = Inr (out', t') \<Longrightarrow> num_rows t' = num_rows t"
proof (induction i t mem out rule: select_loop.induct)
  case (1 i table mem out)
  show ?case
  proof (cases "i < num_rows table")
    case True
    with "1.prems" obtain row t1 out1 where sel: "select_row table i mem = Inr (row, t1)"
      and pr: "print_row row out = Inr out1"
      and rest: "select_loop (i + 1) t1 mem out1 = Inr (out', t')"
      by (subst (asm) select_loop.simps) (auto split: sum.splits prod.splits)
    from "1.IH" [OF True sel refl pr rest] select_row_Inr [OF sel] show ?thesis by simp
  next
    case False
    with "1.prems" show ?thesis by (subst (asm) select_loop.simps) simp
  qed
qed

lemma execute_select_num_rows:
  assumes "execute_select s t mem = Inr (res, out, t')"
  shows "num_rows t' = num_rows t"
proof (cases "num_rows t = 0")
  case True
  with assms show ?thesis by (simp add: execute_select_def)
next
  case False
  with assms obtain out1 where "select_loop 0 t mem [] = Inr (out1, t')"
    by (simp add: execute_select_def split: sum.splits prod.splits)
  then show ?thesis by (rule select_loop_num_rows)
qed

lemma execute_statement_capacity:
  assumes "num_rows t \<le> TABLE_MAX_ROWS" "execute_statement s t mem = Inr (res, out, t')"
  shows "num_rows t' \<le> TABLE_MAX_ROWS"
proof (cases "type s")
  case STATEMENT_INSERT
  with assms(2) have ins: "execute_insert s t mem = Inr (res, t')"
    by (auto simp: execute_statement_def split: sum.splits prod.splits)
  show ?thesis
  proof (cases "num_rows t < TABLE_MAX_ROWS")
    case True
    from execute_insert_not_full(2) [OF True ins] unat_succ_row [OF True] True
    show ?thesis by (simp add: word_le_nat_alt word_less_nat_alt)
  next
    case False
    then have "TABLE_MAX_ROWS \<le> num_rows t" by simp
    from execute_insert_full [OF this, of s mem] ins assms(1) show ?thesis by simp
  qed
next
  case STATEMENT_SELECT
  with assms(2) have "execute_select s t mem = Inr (res, out, t')"
    by (simp add: execute_statement_def)
  from execute_select_num_rows [OF this] assms(1) show ?thesis by simp
qed

lemma run_statements_capacity:
  "num_rows t \<le> TABLE_MAX_ROWS \<Longrightarrow> run_statements ss t mem = Inr (log, t') \<Longrightarrow>
   num_rows t' \<le> TABLE_MAX_ROWS"
proof (induction ss arbitrary: t log)
  case Nil
  then show ?case by simp
next
  case (Cons s ss)
  from Cons.prems(2) obtain res out t1 log1 where
    step: "execute_statement s t mem = Inr (res, out, t1)" and
    rest: "run_statements ss t1 mem = Inr (log1, t')"
    by (auto split: sum.splits prod.splits)
  from Cons.IH [OF execute_statement_capacity [OF Cons.prems(1) step] rest] show ?case .
qed

lemma num_rows_db_open_table_empty: "num_rows (db_open_table []) = 0"
  by (simp add: db_open_table_def pager_open_def Let_def)

section \<open>Pages and rows as the pager presents them\<close>

lemma get_page_content:
  assumes "p < TABLE_MAX_PAGES" "length (pages pgr) = unat TABLE_MAX_PAGES"
  shows "get_page pgr p mem =
    Inr (pgr\<lparr>pages := (pages pgr)[unat p := Some (page_content pgr mem p)]\<rparr>)"
proof -
  from assms have lt: "unat p < length (pages pgr)" and le: "\<not> TABLE_MAX_PAGES < p"
    by (simp_all add: word_less_nat_alt)
  show ?thesis
  proof (cases "pages pgr ! unat p")
    case None
    with lt le show ?thesis
      by (simp add: get_page_def page_content_def Let_def)
  next
    case (Some page)
    then have "(pages pgr)[unat p := Some page] = pages pgr"
      by (metis list_update_id)
    with Some lt le show ?thesis
      by (simp add: get_page_def page_content_def)
  qed
qed

lemma page_content_update:
  "page_content (pgr\<lparr>pages := (pages pgr)[k := Some x]\<rparr>) mem q =
     (if unat q = k \<and> k < length (pages pgr) then x else page_content pgr mem q)"
proof (cases "unat q = k")
  case True
  then show ?thesis
    by (cases "k < length (pages pgr)")
      (simp_all add: page_content_def list_update_beyond split: option.split)
next
  case False
  then show ?thesis
    by (simp add: page_content_def split: option.split)
qed

lemma page_content_resident:
  assumes "unat q < length (pages pgr)"
  shows "page_content (pgr\<lparr>pages := (pages pgr)[unat p := Some (page_content pgr mem p)]\<rparr>) mem q =
    page_content pgr mem q"
proof (cases "unat q = unat p")
  case True
  then have "q = p" by (simp add: word_unat_eq_iff)
  with assms show ?thesis by (simp add: page_content_update)
next
  case False
  then show ?thesis by (simp add: page_content_update)
qed

lemma row_slot_content:
  assumes "i < TABLE_MAX_ROWS" "length (pages (pager t)) = unat TABLE_MAX_PAGES"
  shows "row_slot t i mem =
    Inr (t\<lparr>pager := (pager t)\<lparr>pages := (pages (pager t))[unat (i div ROWS_PER_PAGE) :=
           Some (page_content (pager t) mem (i div ROWS_PER_PAGE))]\<rparr>\<rparr>,
         i div ROWS_PER_PAGE, i mod ROWS_PER_PAGE * ROW_SIZE)"
  using get_page_content [OF row_page_in_bounds [OF assms(1)] assms(2), of mem]
  by (simp add: row_slot_def Let_def)

lemma select_row_content:
  assumes "i < TABLE_MAX_ROWS" "length (pages (pager t)) = unat TABLE_MAX_PAGES"
  shows "select_row t i mem =
    Inr (row_at t mem i,
         t\<lparr>pager := (pager t)\<lparr>pages := (pages (pager t))[unat (i div ROWS_PER_PAGE) :=
           Some (page_content (pager t) mem (i div ROWS_PER_PAGE))]\<rparr>\<rparr>)"
proof -
  from row_page_in_bounds [OF assms(1)] assms(2)
  have "unat (i div ROWS_PER_PAGE) < length (pages (pager t))"
    by (simp add: word_less_nat_alt)
  then show ?thesis
    by (simp add: select_row_def row_slot_content [OF assms] row_at_def)
qed

lemma row_at_resident:
  assumes "length (pages (pager t)) = unat TABLE_MAX_PAGES" "p < TABLE_MAX_PAGES" "j < TABLE_MAX_ROWS"
  shows "row_at (t\<lparr>pager := (pager t)\<lparr>pages := (pages (pager t))[unat p :=
           Some (page_content (pager t) mem p)]\<rparr>\<rparr>) mem j = row_at t mem j"
proof -
  from row_page_in_bounds [OF assms(3)] assms(1)
  have "unat (j div ROWS_PER_PAGE) < length (pages (pager t))"
    by (simp add: word_less_nat_alt)
  then show ?thesis
    by (simp add: row_at_def page_content_resident)
qed

lemma print_row_strings: "row_strings row \<Longrightarrow> print_row row out = Inr (out @ [row])"
  by (simp add: print_row_def row_strings_def)

lemma print_row_no_strings: "\<not> row_strings row \<Longrightarrow> print_row row out = Inl UNDEFINED_BEHAVIOUR"
  by (simp add: print_row_def row_strings_def)

lemma select_loop_rows:
  "length (pages (pager t)) = unat TABLE_MAX_PAGES \<Longrightarrow> num_rows t \<le> TABLE_MAX_ROWS \<Longrightarrow>
   \<forall>j. unat i \<le> j \<and> j < unat (num_rows t) \<longrightarrow> row_strings (row_at t mem (of_nat j)) \<Longrightarrow>
   \<exists>t'. select_loop i t mem out =
          Inr (out @ map (\<lambda>j. row_at t mem (of_nat j)) [unat i ..< unat (num_rows t)], t') \<and>
        num_rows t' = num_rows t \<and>
        length (pages (pager t')) = unat TABLE_MAX_PAGES \<and>
        (\<forall>j. j < TABLE_MAX_ROWS \<longrightarrow> row_at t' mem j = row_at t mem j)"
proof (induction i t mem out rule: select_loop.induct)
  case (1 i table mem out)
  show ?case
  proof (cases "i < num_rows table")
    case False
    then have "[unat i ..< unat (num_rows table)] = []"
      by (simp add: word_less_nat_alt)
    with False "1.prems" show ?thesis
      by (subst select_loop.simps) simp
  next
    case True
    let ?p = "i div ROWS_PER_PAGE"
    let ?t1 = "table\<lparr>pager := (pager table)\<lparr>pages := (pages (pager table))[unat ?p :=
           Some (page_content (pager table) mem ?p)]\<rparr>\<rparr>"
    from True "1.prems"(2) have i_lt: "i < TABLE_MAX_ROWS" by simp
    have sel: "select_row table i mem = Inr (row_at table mem i, ?t1)"
      by (rule select_row_content [OF i_lt "1.prems"(1)])
    have same: "row_at ?t1 mem j = row_at table mem j" if "j < TABLE_MAX_ROWS" for j
      by (rule row_at_resident [OF "1.prems"(1) row_page_in_bounds [OF i_lt] that])
    have len1: "length (pages (pager ?t1)) = unat TABLE_MAX_PAGES"
      using "1.prems"(1) by simp
    have n1: "num_rows ?t1 \<le> TABLE_MAX_ROWS"
      using "1.prems"(2) by simp
    have succ: "unat (i + 1) = Suc (unat i)"
      using unat_succ_row [OF i_lt] by simp
    have lt_nat: "unat i < unat (num_rows table)"
      using True by (simp add: word_less_nat_alt)
    have bound: "of_nat j < TABLE_MAX_ROWS" if "j < unat (num_rows table)" for j
    proof -
      from that "1.prems"(2) have "j < 1300"
        by (simp add: word_le_nat_alt TABLE_MAX_ROWS_val)
      then show ?thesis
        by (simp add: TABLE_MAX_ROWS_val word_less_nat_alt unat_of_nat)
    qed
    from "1.prems"(3) lt_nat have "row_strings (row_at table mem (of_nat (unat i)))"
      by blast
    then have pr: "print_row (row_at table mem i) out = Inr (out @ [row_at table mem i])"
      by (simp add: print_row_strings)
    have strs1: "\<forall>j. unat (i + 1) \<le> j \<and> j < unat (num_rows ?t1) \<longrightarrow>
        row_strings (row_at ?t1 mem (of_nat j))"
      using "1.prems"(3) by (simp add: succ same bound)
    from "1.IH" [OF True sel refl pr len1 n1 strs1] obtain t' where
      loop: "select_loop (i + 1) ?t1 mem (out @ [row_at table mem i]) =
          Inr ((out @ [row_at table mem i]) @
            map (\<lambda>j. row_at ?t1 mem (of_nat j)) [unat (i + 1) ..< unat (num_rows ?t1)], t')"
      and t': "num_rows t' = num_rows ?t1" "length (pages (pager t')) = unat TABLE_MAX_PAGES"
        "\<forall>j. j < TABLE_MAX_ROWS \<longrightarrow> row_at t' mem j = row_at ?t1 mem j"
      by blast
    have maps: "map (\<lambda>j. row_at ?t1 mem (of_nat j)) [Suc (unat i) ..< unat (num_rows table)] =
        map (\<lambda>j. row_at table mem (of_nat j)) [Suc (unat i) ..< unat (num_rows table)]"
      by (rule map_cong [OF refl]) (simp add: same bound)
    have split: "[unat i ..< unat (num_rows table)] = unat i # [Suc (unat i) ..< unat (num_rows table)]"
      using lt_nat by (rule upt_conv_Cons)
    have "select_loop i table mem out =
        Inr (out @ map (\<lambda>j. row_at table mem (of_nat j)) [unat i ..< unat (num_rows table)], t')"
      using True sel pr loop maps
      by (subst select_loop.simps) (simp add: succ split)
    moreover have "\<forall>j. j < TABLE_MAX_ROWS \<longrightarrow> row_at t' mem j = row_at table mem j"
      using t'(3) same by simp
    ultimately show ?thesis
      using t'(1,2) by simp
  qed
qed

section \<open>The effect of an insert\<close>

lemma length_read_file: "length buf = n \<Longrightarrow> length (read_file file off buf n) = n"
  by (simp add: read_file_def Let_def)

lemma length_malloc: "length (malloc mem p n) = n"
  by (simp add: malloc_def)

lemma pager_ok_page:
  assumes "pager_ok pgr" "Some page \<in> set (pages pgr)"
  shows "length page = unat PAGE_SIZE"
proof -
  from assms have "case Some page of None \<Rightarrow> True | Some page \<Rightarrow> length page = unat PAGE_SIZE"
    unfolding pager_ok_def by blast
  then show ?thesis by simp
qed

lemma length_page_content:
  assumes "pager_ok pgr" "p < TABLE_MAX_PAGES"
  shows "length (page_content pgr mem p) = unat PAGE_SIZE"
proof (cases "pages pgr ! unat p")
  case None
  then show ?thesis
    by (simp add: page_content_def length_read_file length_malloc)
next
  case (Some page)
  from assms(1,2) have "unat p < length (pages pgr)"
    by (simp add: pager_ok_def word_less_nat_alt)
  with Some have "Some page \<in> set (pages pgr)"
    by (metis nth_mem)
  with assms(1) have "length page = unat PAGE_SIZE"
    by (rule pager_ok_page)
  with Some show ?thesis
    by (simp add: page_content_def)
qed

lemma pager_ok_update:
  assumes "pager_ok pgr" "length page = unat PAGE_SIZE"
  shows "pager_ok (pgr\<lparr>pages := (pages pgr)[k := Some page]\<rparr>)"
proof -
  have sub: "set ((pages pgr)[k := Some page]) \<subseteq> insert (Some page) (set (pages pgr))"
    by (rule set_update_subset_insert)
  have "case e of None \<Rightarrow> True | Some page \<Rightarrow> length page = unat PAGE_SIZE"
    if "e \<in> set ((pages pgr)[k := Some page])" for e
  proof -
    from that sub have "e = Some page \<or> e \<in> set (pages pgr)" by blast
    with assms show ?thesis
      by (auto simp: pager_ok_def)
  qed
  with assms(1) show ?thesis
    by (simp add: pager_ok_def)
qed

lemma slot_fits: "unat (n mod ROWS_PER_PAGE * ROW_SIZE) + unat ROW_SIZE \<le> unat PAGE_SIZE"
proof -
  have "unat n mod 13 \<le> 12" by (simp add: Suc_leI less_Suc_eq_le [symmetric])
  then have "(unat n mod 13) * 293 \<le> 12 * 293" by (rule mult_le_mono1)
  then show ?thesis
    by (simp add: unat_byte_offset unat_ROW_SIZE unat_PAGE_SIZE)
qed

lemma slots_apart:
  assumes "unat j mod 13 \<noteq> unat n mod 13"
  shows "unat (j mod ROWS_PER_PAGE * ROW_SIZE) + unat ROW_SIZE \<le> unat (n mod ROWS_PER_PAGE * ROW_SIZE) \<or>
    unat (n mod ROWS_PER_PAGE * ROW_SIZE) + unat ROW_SIZE \<le> unat (j mod ROWS_PER_PAGE * ROW_SIZE)"
proof -
  from assms consider "Suc (unat j mod 13) \<le> unat n mod 13" | "Suc (unat n mod 13) \<le> unat j mod 13"
    by linarith
  then show ?thesis
  proof cases
    case 1
    then have "Suc (unat j mod 13) * 293 \<le> (unat n mod 13) * 293" by (rule mult_le_mono1)
    then show ?thesis by (simp add: unat_byte_offset unat_ROW_SIZE)
  next
    case 2
    then have "Suc (unat n mod 13) * 293 \<le> (unat j mod 13) * 293" by (rule mult_le_mono1)
    then show ?thesis by (simp add: unat_byte_offset unat_ROW_SIZE)
  qed
qed

lemma execute_insert_content:
  assumes "num_rows t < TABLE_MAX_ROWS" "length (pages (pager t)) = unat TABLE_MAX_PAGES"
    "row_to_insert s = Some r"
  shows "execute_insert s t mem =
    Inr (EXECUTE_SUCCESS,
      \<lparr> num_rows = num_rows t + 1,
        pager = (pager t)\<lparr>pages := (pages (pager t))[unat (num_rows t div ROWS_PER_PAGE) :=
          Some (serialize_row r (page_content (pager t) mem (num_rows t div ROWS_PER_PAGE))
                  (unat (num_rows t mod ROWS_PER_PAGE * ROW_SIZE)))]\<rparr> \<rparr>)"
proof -
  from row_page_in_bounds [OF assms(1)] assms(2)
  have "unat (num_rows t div ROWS_PER_PAGE) < length (pages (pager t))"
    by (simp add: word_less_nat_alt)
  with assms(1,3) show ?thesis
    by (simp add: execute_insert_def row_slot_content [OF assms(1,2)] Let_def not_le [symmetric])
qed

lemma div_mod_13_eq: "(a::nat) div 13 = b div 13 \<Longrightarrow> a mod 13 = b mod 13 \<Longrightarrow> a = b"
  by (metis div_mult_mod_eq)

lemma row_at_after_insert:
  assumes n: "num_rows t < TABLE_MAX_ROWS" and ok: "pager_ok (pager t)"
    and r: "row_ok r" "row_to_insert s = Some r"
    and ins: "execute_insert s t mem = Inr (res, t')"
    and j: "j < TABLE_MAX_ROWS"
  shows "row_at t' mem j = (if j = num_rows t then r else row_at t mem j)"
proof -
  let ?n = "num_rows t"
  let ?p = "?n div ROWS_PER_PAGE"
  let ?off = "unat (?n mod ROWS_PER_PAGE * ROW_SIZE)"
  let ?page = "page_content (pager t) mem ?p"
  from ok have len: "length (pages (pager t)) = unat TABLE_MAX_PAGES"
    by (simp add: pager_ok_def)
  from ins execute_insert_content [OF n len r(2), of mem]
  have t': "pager t' = (pager t)\<lparr>pages := (pages (pager t))[unat ?p := Some (serialize_row r ?page ?off)]\<rparr>"
    by auto
  have p_lt: "unat ?p < length (pages (pager t))"
    using row_page_in_bounds [OF n] len by (simp add: word_less_nat_alt)
  have page_len: "length ?page = unat PAGE_SIZE"
    by (rule length_page_content [OF ok row_page_in_bounds [OF n]])
  have fits: "?off + unat ROW_SIZE \<le> length ?page"
    using slot_fits [of ?n] page_len by simp
  have content: "page_content (pager t') mem q =
      (if unat q = unat ?p then serialize_row r ?page ?off else page_content (pager t) mem q)" for q
    using p_lt by (simp add: t' page_content_update)
  show ?thesis
  proof (cases "j = ?n")
    case True
    then show ?thesis
      by (simp add: row_at_def content deserialize_serialize [OF r(1) fits])
  next
    case False
    show ?thesis
    proof (cases "unat (j div ROWS_PER_PAGE) = unat ?p")
      case same_page: True
      then have "j div ROWS_PER_PAGE = ?p" by (simp add: word_unat_eq_iff)
      have "unat j \<noteq> unat ?n" using False by (simp add: word_unat_eq_iff)
      with same_page have "unat j mod 13 \<noteq> unat ?n mod 13"
        by (auto simp: unat_row_page dest: div_mod_13_eq)
      from slots_apart [OF this]
      have "deserialize_row (serialize_row r ?page ?off) (unat (j mod ROWS_PER_PAGE * ROW_SIZE)) =
          deserialize_row ?page (unat (j mod ROWS_PER_PAGE * ROW_SIZE))"
        by (rule deserialize_serialize_other [OF r(1) fits])
      with False same_page \<open>j div ROWS_PER_PAGE = ?p\<close> show ?thesis
        by (simp add: row_at_def content)
    next
      case other_page: False
      with False show ?thesis
        by (simp add: row_at_def content)
    qed
  qed
qed

lemma pager_ok_after_insert:
  assumes n: "num_rows t < TABLE_MAX_ROWS" and ok: "pager_ok (pager t)"
    and r: "row_ok r" "row_to_insert s = Some r"
    and ins: "execute_insert s t mem = Inr (res, t')"
  shows "pager_ok (pager t')"
proof -
  let ?n = "num_rows t"
  let ?p = "?n div ROWS_PER_PAGE"
  let ?off = "unat (?n mod ROWS_PER_PAGE * ROW_SIZE)"
  let ?page = "page_content (pager t) mem ?p"
  from ok have len: "length (pages (pager t)) = unat TABLE_MAX_PAGES"
    by (simp add: pager_ok_def)
  from ins execute_insert_content [OF n len r(2), of mem]
  have t': "pager t' = (pager t)\<lparr>pages := (pages (pager t))[unat ?p := Some (serialize_row r ?page ?off)]\<rparr>"
    by auto
  have page_len: "length ?page = unat PAGE_SIZE"
    by (rule length_page_content [OF ok row_page_in_bounds [OF n]])
  have fits: "?off + unat ROW_SIZE \<le> length ?page"
    using slot_fits [of ?n] page_len by simp
  have "length (serialize_row r ?page ?off) = unat PAGE_SIZE"
    using length_serialize_row [OF r(1) fits] page_len by simp
  from pager_ok_update [OF ok this] show ?thesis
    by (simp add: t')
qed

lemma execute_statement_insert:
  "execute_statement (insert_statement r) t mem =
     (case execute_insert (insert_statement r) t mem of
        Inl e \<Rightarrow> Inl e | Inr (res, t') \<Rightarrow> Inr (res, [], t'))"
  by (simp add: execute_statement_def insert_statement_def)

lemma run_inserts:
  "pager_ok (pager t) \<Longrightarrow> \<forall>r\<in>set rs. row_ok r \<Longrightarrow>
   unat (num_rows t) + length rs \<le> 1300 \<Longrightarrow>
   \<exists>t'. run_statements (map insert_statement rs) t mem =
          Inr (map (\<lambda>r. (EXECUTE_SUCCESS, [])) rs, t') \<and>
        pager_ok (pager t') \<and>
        unat (num_rows t') = unat (num_rows t) + length rs \<and>
        (\<forall>j. j < length rs \<longrightarrow> row_at t' mem (of_nat (unat (num_rows t) + j)) = rs ! j) \<and>
        (\<forall>j. j < num_rows t \<longrightarrow> row_at t' mem j = row_at t mem j)"
proof (induction rs arbitrary: t)
  case Nil
  then show ?case by simp
next
  case (Cons r rs)
  let ?s = "insert_statement r"
  from Cons.prems(3) have n_nat: "unat (num_rows t) < 1300" by simp
  then have n: "num_rows t < TABLE_MAX_ROWS"
    by (simp add: TABLE_MAX_ROWS_val word_less_nat_alt)
  from Cons.prems(1) have len: "length (pages (pager t)) = unat TABLE_MAX_PAGES"
    by (simp add: pager_ok_def)
  have s: "row_to_insert ?s = Some r" by (simp add: insert_statement_def)
  from Cons.prems(2) have r: "row_ok r" and rs: "\<forall>r\<in>set rs. row_ok r" by simp_all
  from execute_insert_content [OF n len s, of mem] obtain t1 where
    ins: "execute_insert ?s t mem = Inr (EXECUTE_SUCCESS, t1)" and n1: "num_rows t1 = num_rows t + 1"
    by simp
  have ok1: "pager_ok (pager t1)"
    by (rule pager_ok_after_insert [OF n Cons.prems(1) r s ins])
  have at1: "row_at t1 mem j = (if j = num_rows t then r else row_at t mem j)"
    if "j < TABLE_MAX_ROWS" for j
    by (rule row_at_after_insert [OF n Cons.prems(1) r s ins that])
  have un1: "unat (num_rows t1) = Suc (unat (num_rows t))"
    using unat_succ_row [OF n] n1 by simp
  with Cons.prems(3) have cap1: "unat (num_rows t1) + length rs \<le> 1300" by simp
  from Cons.IH [OF ok1 rs cap1] obtain t' where
    run: "run_statements (map insert_statement rs) t1 mem =
          Inr (map (\<lambda>r. (EXECUTE_SUCCESS, [])) rs, t')"
    and ok': "pager_ok (pager t')"
    and n': "unat (num_rows t') = unat (num_rows t1) + length rs"
    and new: "\<forall>j. j < length rs \<longrightarrow> row_at t' mem (of_nat (unat (num_rows t1) + j)) = rs ! j"
    and old: "\<forall>j. j < num_rows t1 \<longrightarrow> row_at t' mem j = row_at t1 mem j"
    by blast
  have lt1: "num_rows t < num_rows t1"
    by (simp add: word_less_nat_alt un1)
  have run': "run_statements (map insert_statement (r # rs)) t mem =
          Inr (map (\<lambda>r. (EXECUTE_SUCCESS, [])) (r # rs), t')"
    using ins run by (simp add: execute_statement_insert)
  have new': "row_at t' mem (of_nat (unat (num_rows t) + j)) = (r # rs) ! j"
    if "j < length (r # rs)" for j
  proof (cases j)
    case 0
    from old lt1 have "row_at t' mem (num_rows t) = row_at t1 mem (num_rows t)" by simp
    also have "\<dots> = r" using at1 [OF n] by simp
    finally show ?thesis using 0 by simp
  next
    case (Suc k)
    with that have "k < length rs" by simp
    with new have "row_at t' mem (of_nat (unat (num_rows t1) + k)) = rs ! k" by simp
    with Suc un1 show ?thesis by simp
  qed
  have old': "row_at t' mem j = row_at t mem j" if "j < num_rows t" for j
  proof -
    from that lt1 have "j < num_rows t1" by simp
    with old have "row_at t' mem j = row_at t1 mem j" by simp
    moreover from that n have "j < TABLE_MAX_ROWS" by simp
    ultimately show ?thesis using at1 [of j] that by simp
  qed
  from run' ok' n' un1 new' old' show ?case
    by (intro exI [of _ t']) simp
qed

lemma pager_ok_pager_open: "pager_ok (pager_open file)"
  by (simp add: pager_ok_def pager_open_def)

lemma pager_db_open_table: "pager (db_open_table file) = pager_open file"
  by (simp add: db_open_table_def Let_def)

lemma run_inserts_all_success:
  "run_statements (map insert_statement rs) t mem = Inr (log, t') \<Longrightarrow>
   \<forall>e\<in>set log. fst e = EXECUTE_SUCCESS \<Longrightarrow>
   unat (num_rows t') = unat (num_rows t) + length rs \<and>
   (rs \<noteq> [] \<longrightarrow> unat (num_rows t') \<le> 1300)"
proof (induction rs arbitrary: t log)
  case Nil
  then show ?case by simp
next
  case (Cons r rs)
  from Cons.prems(1) obtain res t1 log1 where
    ins: "execute_insert (insert_statement r) t mem = Inr (res, t1)" and
    run: "run_statements (map insert_statement rs) t1 mem = Inr (log1, t')" and
    log: "log = (res, []) # log1"
    by (auto simp: execute_statement_insert split: sum.splits prod.splits)
  from log Cons.prems(2) have res: "res = EXECUTE_SUCCESS" and log1: "\<forall>e\<in>set log1. fst e = EXECUTE_SUCCESS"
    by simp_all
  have n: "num_rows t < TABLE_MAX_ROWS"
  proof (rule ccontr)
    assume "\<not> num_rows t < TABLE_MAX_ROWS"
    then have "TABLE_MAX_ROWS \<le> num_rows t" by simp
    from execute_insert_full [OF this, of "insert_statement r" mem] ins res show False by simp
  qed
  from execute_insert_not_full(2) [OF n ins] unat_succ_row [OF n]
  have n1: "unat (num_rows t1) = Suc (unat (num_rows t))" by simp
  from n have "unat (num_rows t) < 1300"
    by (simp add: TABLE_MAX_ROWS_val word_less_nat_alt)
  with n1 Cons.IH [OF run log1] show ?case
    by (cases "rs = []") auto
qed


lemma num_rows_db_open_table_nil: "unat (num_rows (db_open_table [])) = 0"
  by (simp add: num_rows_db_open_table_empty)

lemma execute_select_rows:
  assumes "length (pages (pager t)) = unat TABLE_MAX_PAGES" "num_rows t \<le> TABLE_MAX_ROWS"
    "num_rows t \<noteq> 0"
    "\<forall>j. j < unat (num_rows t) \<longrightarrow> row_strings (row_at t mem (of_nat j))"
  shows "\<exists>t'. execute_select s t mem =
      Inr (EXECUTE_SUCCESS, map (\<lambda>j. row_at t mem (of_nat j)) [0 ..< unat (num_rows t)], t') \<and>
      num_rows t' = num_rows t \<and>
      length (pages (pager t')) = unat TABLE_MAX_PAGES \<and>
      (\<forall>j. j < TABLE_MAX_ROWS \<longrightarrow> row_at t' mem j = row_at t mem j)"
proof -
  from assms(4) have "\<forall>j. unat (0 :: u32) \<le> j \<and> j < unat (num_rows t) \<longrightarrow>
      row_strings (row_at t mem (of_nat j))"
    by simp
  from select_loop_rows [OF assms(1,2) this, of "[]"] obtain t' where
    "select_loop 0 t mem [] =
       Inr (map (\<lambda>j. row_at t mem (of_nat j)) [0 ..< unat (num_rows t)], t')"
    "num_rows t' = num_rows t" "length (pages (pager t')) = unat TABLE_MAX_PAGES"
    "\<forall>j. j < TABLE_MAX_ROWS \<longrightarrow> row_at t' mem j = row_at t mem j"
    by auto
  with assms(3) show ?thesis
    by (simp add: execute_select_def)
qed

lemma malloc_heap_of: "malloc (heap_of b) p n = replicate n b"
proof -
  have "heap_of b p = (\<lambda>k. b)"
    by (rule ext) (simp add: heap_of_def)
  then show ?thesis
    by (simp add: malloc_def map_replicate_const)
qed

lemma run_inserts_succeed:
  "length (pages (pager t)) = unat TABLE_MAX_PAGES \<Longrightarrow> unat (num_rows t) + length rs \<le> 1300 \<Longrightarrow>
   \<exists>t'. run_statements (map insert_statement rs) t mem =
          Inr (map (\<lambda>r. (EXECUTE_SUCCESS, [])) rs, t')"
proof (induction rs arbitrary: t)
  case Nil
  then show ?case by simp
next
  case (Cons r rs)
  let ?s = "insert_statement r"
  from Cons.prems(2) have "unat (num_rows t) < 1300" by simp
  then have n: "num_rows t < TABLE_MAX_ROWS"
    by (simp add: TABLE_MAX_ROWS_val word_less_nat_alt)
  have s: "row_to_insert ?s = Some r" by (simp add: insert_statement_def)
  from execute_insert_content [OF n Cons.prems(1) s, of mem] obtain t1 where
    ins: "execute_insert ?s t mem = Inr (EXECUTE_SUCCESS, t1)" and
    n1: "num_rows t1 = num_rows t + 1" and
    len1: "length (pages (pager t1)) = unat TABLE_MAX_PAGES"
    using Cons.prems(1) by simp
  from n1 unat_succ_row [OF n] Cons.prems(2) have "unat (num_rows t1) + length rs \<le> 1300"
    by simp
  from Cons.IH [OF len1 this] obtain t' where
    "run_statements (map insert_statement rs) t1 mem = Inr (map (\<lambda>r. (EXECUTE_SUCCESS, [])) rs, t')"
    by blast
  with ins show ?case
    by (simp add: execute_statement_insert)
qed

lemma length_pages_db_open_table: "length (pages (pager (db_open_table file))) = unat TABLE_MAX_PAGES"
  by (simp add: db_open_table_def pager_open_def Let_def)

lemma select_row_overrun:
  assumes "length (pages (pager t)) = unat TABLE_MAX_PAGES"
  shows "select_row t TABLE_MAX_ROWS mem = Inl UNDEFINED_BEHAVIOUR"
proof -
  have "TABLE_MAX_ROWS div ROWS_PER_PAGE = TABLE_MAX_PAGES"
    by (simp add: TABLE_MAX_ROWS_val ROWS_PER_PAGE_val TABLE_MAX_PAGES_def)
  with assms show ?thesis
    by (simp add: select_row_def row_slot_def get_page_def)
qed

lemma select_loop_overrun:
  "length (pages (pager t)) = unat TABLE_MAX_PAGES \<Longrightarrow> TABLE_MAX_ROWS < num_rows t \<Longrightarrow>
   i \<le> TABLE_MAX_ROWS \<Longrightarrow> select_loop i t mem out = Inl UNDEFINED_BEHAVIOUR"
proof (induction i t mem out rule: select_loop.induct)
  case (1 i table mem out)
  from "1.prems"(2,3) have lt: "i < num_rows table" by simp
  show ?case
  proof (cases "i = TABLE_MAX_ROWS")
    case True
    with lt select_row_overrun [OF "1.prems"(1), of mem] show ?thesis
      by (subst select_loop.simps) simp
  next
    case False
    with "1.prems"(3) have i_lt: "i < TABLE_MAX_ROWS" by simp
    let ?p = "i div ROWS_PER_PAGE"
    let ?t1 = "table\<lparr>pager := (pager table)\<lparr>pages := (pages (pager table))[unat ?p :=
           Some (page_content (pager table) mem ?p)]\<rparr>\<rparr>"
    have sel: "select_row table i mem = Inr (row_at table mem i, ?t1)"
      by (rule select_row_content [OF i_lt "1.prems"(1)])
    have len1: "length (pages (pager ?t1)) = unat TABLE_MAX_PAGES"
      using "1.prems"(1) by simp
    have n1: "TABLE_MAX_ROWS < num_rows ?t1"
      using "1.prems"(2) by simp
    have "unat (i + 1) = unat i + 1" by (rule unat_succ_row [OF i_lt])
    moreover from i_lt have "unat i < unat TABLE_MAX_ROWS" by (simp add: word_less_nat_alt)
    ultimately have le1: "i + 1 \<le> TABLE_MAX_ROWS"
      by (simp add: word_le_nat_alt)
    show ?thesis
    proof (cases "print_row (row_at table mem i) out")
      case (Inl e)
      then have "e = UNDEFINED_BEHAVIOUR"
        by (simp add: print_row_def split: if_splits)
      with Inl lt sel show ?thesis
        by (subst select_loop.simps) simp
    next
      case (Inr out1)
      from "1.IH" [OF lt sel refl Inr len1 n1 le1] Inr lt sel show ?thesis
        by (subst select_loop.simps) simp
    qed
  qed
qed

lemma execute_select_overrun:
  assumes "length (pages (pager t)) = unat TABLE_MAX_PAGES" "TABLE_MAX_ROWS < num_rows t"
  shows "execute_select s t mem = Inl UNDEFINED_BEHAVIOUR"
proof -
  from assms(2) have "num_rows t \<noteq> 0"
    by (auto simp: TABLE_MAX_ROWS_val)
  with select_loop_overrun [OF assms, of 0 mem "[]"] show ?thesis
    by (simp add: execute_select_def)
qed

lemma num_rows_db_open_table: "length file < 2 ^ 32 \<Longrightarrow> unat (num_rows (db_open_table file)) = length file div 293"
  by (simp add: db_open_table_def pager_open_def Let_def ROW_SIZE_val unat_div unat_of_nat)

lemma get_page_out_of_bounds:
  "TABLE_MAX_PAGES < p \<Longrightarrow> get_page pgr p mem = Inl OUT_OF_BOUNDS"
  by (simp add: get_page_def)

lemma read_file_nil: "read_file [] off buf n = buf"
  by (simp add: read_file_def)

lemma num_pages_unat:
  assumes "length file + 4096 \<le> 2 ^ 32"
  shows "unat ((of_nat (length file) + PAGE_SIZE - 1) div PAGE_SIZE :: u32) = (length file + 4095) div 4096"
proof -
  from assms have "length file + 4095 < 2 ^ 32" by simp
  then have u: "unat (of_nat (length file) + 4095 :: u32) = length file + 4095"
    by (simp add: unat_word_ariths unat_of_nat)
  have eq: "(of_nat (length file) + PAGE_SIZE - 1 :: u32) = of_nat (length file) + 4095"
    by (simp add: PAGE_SIZE_def)
  show ?thesis
    by (simp only: eq unat_div unat_PAGE_SIZE u)
qed

lemma read_file_beyond: "length file \<le> off \<Longrightarrow> read_file file off buf n = buf"
  by (simp add: read_file_def)

lemma page_content_absent:
  assumes none: "pages pgr ! unat p = None" and p: "p < TABLE_MAX_PAGES"
    and fl: "file_length pgr = of_nat (length (fd pgr))" and small: "length (fd pgr) + 4096 \<le> 2 ^ 32"
  shows "page_content pgr mem p = read_file (fd pgr) (unat p * 4096) (malloc mem p 4096) 4096"
proof (cases "p \<le> (file_length pgr + PAGE_SIZE - 1) div PAGE_SIZE")
  case True
  from p have "p \<le> TABLE_MAX_PAGES" by simp
  with True none show ?thesis
    by (simp add: page_content_def unat_page_offset unat_PAGE_SIZE)
next
  case False
  then have "(length (fd pgr) + 4095) div 4096 < unat p"
    by (simp add: word_le_nat_alt fl num_pages_unat [OF small])
  then have "length (fd pgr) \<le> unat p * 4096"
    by simp
  with False none show ?thesis
    by (simp add: page_content_def read_file_beyond unat_PAGE_SIZE)
qed


lemma page_content_pager_open_nil:
  "page_content (pager_open []) mem 0 = malloc mem 0 (unat PAGE_SIZE)"
  by (simp add: page_content_def pager_open_def TABLE_MAX_PAGES_def read_file_nil)

lemma insert_into_empty:
  "execute_insert (insert_statement r) (db_open_table []) mem =
     Inr (EXECUTE_SUCCESS,
       \<lparr> num_rows = 1,
         pager = (pager_open [])\<lparr>pages :=
           (pages (pager_open []))[0 := Some (serialize_row r (malloc mem 0 (unat PAGE_SIZE)) 0)]\<rparr> \<rparr>)"
proof -
  have n: "num_rows (db_open_table []) < TABLE_MAX_ROWS"
    by (simp add: num_rows_db_open_table_empty TABLE_MAX_ROWS_val)
  have s: "row_to_insert (insert_statement r) = Some r"
    by (simp add: insert_statement_def)
  from execute_insert_content [OF n length_pages_db_open_table s, of mem] show ?thesis
    by (simp add: num_rows_db_open_table_empty page_content_pager_open_nil pager_db_open_table)
qed

lemma close_one_row:
  assumes "length page = unat PAGE_SIZE"
  shows "db_close \<lparr> num_rows = 1,
      pager = (pager_open [])\<lparr>pages := (pages (pager_open []))[0 := Some page]\<rparr> \<rparr> = Inr page"
proof -
  let ?pgr = "(pager_open [])\<lparr>pages := (pages (pager_open []))[0 := Some page]\<rparr>"
  have loop: "close_full_pages 0 0 ?pgr = Inr ?pgr"
    by (subst close_full_pages.simps) simp
  have flush: "pager_flush ?pgr 0 PAGE_SIZE = Inr (?pgr\<lparr>fd := page\<rparr>)"
    using assms
    by (simp add: pager_flush_def pager_open_def TABLE_MAX_PAGES_def write_file_def)
  show ?thesis
    by (simp add: db_close_def Let_def ROWS_PER_PAGE_val loop flush)
      (simp add: pager_open_def TABLE_MAX_PAGES_def)
qed


lemma read_file_whole: "length file = n \<Longrightarrow> length buf = n \<Longrightarrow> read_file file 0 buf n = file"
  by (simp add: read_file_def)

lemma row_at_reopened_first:
  assumes "length file = unat PAGE_SIZE"
  shows "row_at (db_open_table file) mem 0 = deserialize_row file 0"
proof -
  let ?pgr = "pager_open file"
  have none: "pages ?pgr ! unat (0 :: u32) = None"
    by (simp add: pager_open_def TABLE_MAX_PAGES_def)
  have p: "(0 :: u32) < TABLE_MAX_PAGES"
    by (simp add: TABLE_MAX_PAGES_def)
  have fl: "file_length ?pgr = of_nat (length (fd ?pgr))"
    by (simp add: pager_open_def)
  have small: "length (fd ?pgr) + 4096 \<le> 2 ^ 32"
    using assms(1) by (simp add: pager_open_def unat_PAGE_SIZE)
  from assms have "length (fd ?pgr) = 4096" "length (malloc mem 0 4096) = 4096"
    by (simp_all add: pager_open_def unat_PAGE_SIZE length_malloc)
  with page_content_absent [OF none p fl small, of mem]
  have "page_content ?pgr mem 0 = file"
    by (simp add: read_file_whole) (simp add: pager_open_def)
  then show ?thesis
    by (simp add: row_at_def pager_db_open_table ROWS_PER_PAGE_val)
qed

lemma deserialize_row_zeros:
  assumes "off + 293 \<le> n"
  shows "username (deserialize_row (replicate n 0) off) = replicate 33 0"
    and "email (deserialize_row (replicate n 0) off) = replicate 256 0"
  using assms by (simp_all add: deserialize_row_def memcpy_from_def offsets_val min_def)

lemma row_strings_zeros: "off + 293 \<le> n \<Longrightarrow> row_strings (deserialize_row (replicate n 0) off)"
  by (simp add: row_strings_def deserialize_row_zeros)

lemma row_at_first_page:
  assumes "length file = unat PAGE_SIZE" "j div ROWS_PER_PAGE = 0"
  shows "row_at \<lparr> num_rows = n, pager = pager_open file \<rparr> mem j =
    deserialize_row file (unat (j mod ROWS_PER_PAGE * ROW_SIZE))"
proof -
  let ?pgr = "pager_open file"
  have none: "pages ?pgr ! unat (0 :: u32) = None"
    by (simp add: pager_open_def TABLE_MAX_PAGES_def)
  have p: "(0 :: u32) < TABLE_MAX_PAGES"
    by (simp add: TABLE_MAX_PAGES_def)
  have fl: "file_length ?pgr = of_nat (length (fd ?pgr))"
    by (simp add: pager_open_def)
  have small: "length (fd ?pgr) + 4096 \<le> 2 ^ 32"
    using assms(1) by (simp add: pager_open_def unat_PAGE_SIZE)
  from assms have "length (fd ?pgr) = 4096" "length (malloc mem 0 4096) = 4096"
    by (simp_all add: pager_open_def unat_PAGE_SIZE length_malloc)
  with page_content_absent [OF none p fl small, of mem]
  have "page_content ?pgr mem 0 = file"
    by (simp add: read_file_whole) (simp add: pager_open_def)
  with assms(2) show ?thesis
    by (simp add: row_at_def)
qed

lemma db_open_table_eq:
  "db_open_table file = \<lparr> num_rows = of_nat (length file) div ROW_SIZE, pager = pager_open file \<rparr>"
  by (simp add: db_open_table_def Let_def pager_open_def)

section \<open>Sessions and statement runs\<close>

lemma rows_after_reopen_one:
  assumes r: "row_ok r" "row_strings r" and j: "j < 13"
  shows "row_strings (row_at (db_open_table (serialize_row r (replicate 4096 0) 0)) mem (of_nat j))"
proof -
  let ?page = "serialize_row r (replicate 4096 0) 0"
  let ?j = "of_nat j :: u32"
  have fits: "0 + unat ROW_SIZE \<le> length (replicate 4096 (0 :: byte))"
    by (simp add: unat_ROW_SIZE)
  have len: "length ?page = unat PAGE_SIZE"
    using length_serialize_row [OF r(1) fits] by (simp add: unat_PAGE_SIZE)
  from j have uj: "unat ?j = j"
    by (simp add: unat_of_nat)
  with j have d: "?j div ROWS_PER_PAGE = 0"
    by (simp add: word_unat_eq_iff unat_row_page)
  have off: "unat (?j mod ROWS_PER_PAGE * ROW_SIZE) = j * 293"
    using j by (simp add: unat_byte_offset uj)
  have at: "row_at (db_open_table ?page) mem ?j = deserialize_row ?page (j * 293)"
    using row_at_first_page [OF len d, of _ mem] by (simp add: db_open_table_eq off)
  show ?thesis
  proof (cases j)
    case 0
    with at deserialize_serialize [OF r(1) fits] r(2) show ?thesis by simp
  next
    case (Suc k)
    then have apart: "j * 293 + unat ROW_SIZE \<le> 0 \<or> 0 + unat ROW_SIZE \<le> j * 293"
      by (simp add: unat_ROW_SIZE)
    from j have "j * 293 + 293 \<le> 4096" by simp
    then have "row_strings (deserialize_row (replicate 4096 0) (j * 293))"
      by (rule row_strings_zeros)
    with at deserialize_serialize_other [OF r(1) fits apart] show ?thesis by simp
  qed
qed

lemma page_content_short_file:
  "page_content (pager_open (replicate 293 b)) mem 0 =
     replicate 293 b @ drop 293 (malloc mem 0 4096)"
  by (simp add: page_content_def pager_open_def TABLE_MAX_PAGES_def read_file_def Let_def
      unat_PAGE_SIZE)

lemma row_at_short_file:
  "row_at \<lparr> num_rows = n, pager = pager_open (replicate 293 b) \<rparr> mem 0 =
     deserialize_row (replicate 293 b @ drop 293 (malloc mem 0 4096)) 0"
  by (simp add: row_at_def page_content_short_file ROWS_PER_PAGE_val)

lemma username_short_file:
  "username (row_at \<lparr> num_rows = n, pager = pager_open (replicate 293 b) \<rparr> mem 0) = replicate 33 b"
  by (simp add: row_at_short_file deserialize_row_def memcpy_from_def offsets_val)

lemma email_short_file:
  "email (row_at \<lparr> num_rows = n, pager = pager_open (replicate 293 b) \<rparr> mem 0) = replicate 256 b"
  by (simp add: row_at_short_file deserialize_row_def memcpy_from_def offsets_val)

lemma select_one_row_no_nul:
  "execute_select s \<lparr> num_rows = 1, pager = pager_open (replicate 293 1) \<rparr> mem =
     Inl UNDEFINED_BEHAVIOUR"
proof -
  let ?t = "\<lparr> num_rows = 1, pager = pager_open (replicate 293 1) \<rparr>"
  have lt: "(0 :: u32) < TABLE_MAX_ROWS"
    by (simp add: TABLE_MAX_ROWS_val)
  have len: "length (pages (pager ?t)) = unat TABLE_MAX_PAGES"
    by (simp add: pager_open_def)
  have "\<not> row_strings (row_at ?t mem 0)"
    by (simp add: row_strings_def username_short_file)
  then have "print_row (row_at ?t mem 0) [] = Inl UNDEFINED_BEHAVIOUR"
    by (rule print_row_no_strings)
  with select_row_content [OF lt len, of mem]
  have "select_loop 0 ?t mem [] = Inl UNDEFINED_BEHAVIOUR"
    by (subst select_loop.simps) simp
  then show ?thesis
    by (simp add: execute_select_def)
qed

lemma main_session_undefined: "main_session file ss mem = Inl UNDEFINED_BEHAVIOUR"
  by (simp add: main_session_def db_open_def)

lemma select_after_inserts:
  assumes "\<forall>r\<in>set rs. row_ok r" and "\<forall>r\<in>set rs. row_strings r" and "rs \<noteq> []"
    and "length rs \<le> unat TABLE_MAX_ROWS"
  shows "\<exists>t t'. run_statements (map insert_statement rs) (db_open_table []) mem =
             Inr (map (\<lambda>r. (EXECUTE_SUCCESS, [])) rs, t) \<and>
        unat (num_rows t) = length rs \<and>
        execute_select select_statement t mem = Inr (EXECUTE_SUCCESS, rs, t')"
proof -
  from assms(4) have cap: "length rs \<le> 1300"
    by (simp add: TABLE_MAX_ROWS_val)
  then have "unat (num_rows (db_open_table [])) + length rs \<le> 1300"
    by (simp add: num_rows_db_open_table_nil)
  from run_inserts [OF _ assms(1) this, of mem] obtain t where
    run: "run_statements (map insert_statement rs) (db_open_table []) mem =
             Inr (map (\<lambda>r. (EXECUTE_SUCCESS, [])) rs, t)"
    and ok: "pager_ok (pager t)"
    and n: "unat (num_rows t) = length rs"
    and rows: "\<forall>j. j < length rs \<longrightarrow> row_at t mem (of_nat j) = rs ! j"
    by (auto simp: pager_db_open_table pager_ok_pager_open num_rows_db_open_table_nil)
  from ok have len: "length (pages (pager t)) = unat TABLE_MAX_PAGES"
    by (simp add: pager_ok_def)
  from n cap have le: "num_rows t \<le> TABLE_MAX_ROWS"
    by (simp add: word_le_nat_alt TABLE_MAX_ROWS_val)
  from n assms(3) have nz: "num_rows t \<noteq> 0"
    by (auto simp: unat_eq_0 [symmetric])
  have strs: "\<forall>j. j < unat (num_rows t) \<longrightarrow> row_strings (row_at t mem (of_nat j))"
    using rows n assms(2) by simp
  have "map (\<lambda>j. row_at t mem (of_nat j)) [0 ..< unat (num_rows t)] = rs"
    using rows n by (intro nth_equalityI) simp_all
  with execute_select_rows [OF len le nz strs, of select_statement]
  obtain t' where "execute_select select_statement t mem = Inr (EXECUTE_SUCCESS, rs, t')"
    by auto
  with run n show ?thesis
    by blast
qed

lemma select_row_pager_ok:
  assumes "pager_ok (pager t)" "i < TABLE_MAX_ROWS" "select_row t i mem = Inr (row, t')"
  shows "pager_ok (pager t')"
proof -
  let ?p = "i div ROWS_PER_PAGE"
  from assms(1) have len: "length (pages (pager t)) = unat TABLE_MAX_PAGES"
    by (simp add: pager_ok_def)
  from assms(3) select_row_content [OF assms(2) len, of mem]
  have "pager t' = (pager t)\<lparr>pages := (pages (pager t))[unat ?p :=
      Some (page_content (pager t) mem ?p)]\<rparr>"
    by auto
  with pager_ok_update [OF assms(1) length_page_content [OF assms(1) row_page_in_bounds [OF assms(2)]]]
  show ?thesis
    by simp
qed

lemma select_loop_pager_ok:
  "pager_ok (pager t) \<Longrightarrow> num_rows t \<le> TABLE_MAX_ROWS \<Longrightarrow>
   select_loop i t mem out = Inr (out', t') \<Longrightarrow> pager_ok (pager t')"
proof (induction i t mem out rule: select_loop.induct)
  case (1 i table mem out)
  show ?case
  proof (cases "i < num_rows table")
    case True
    with "1.prems"(3) obtain row t1 out1 where sel: "select_row table i mem = Inr (row, t1)"
      and pr: "print_row row out = Inr out1"
      and rest: "select_loop (i + 1) t1 mem out1 = Inr (out', t')"
      by (subst (asm) select_loop.simps) (auto split: sum.splits prod.splits)
    from True "1.prems"(2) have "i < TABLE_MAX_ROWS" by simp
    from select_row_pager_ok [OF "1.prems"(1) this sel] have ok1: "pager_ok (pager t1)" .
    from select_row_Inr [OF sel] "1.prems"(2) have n1: "num_rows t1 \<le> TABLE_MAX_ROWS" by simp
    from "1.IH" [OF True sel refl pr ok1 n1 rest] show ?thesis .
  next
    case False
    with "1.prems" show ?thesis by (subst (asm) select_loop.simps) simp
  qed
qed

lemma execute_select_Inr:
  assumes "num_rows t \<noteq> 0" "execute_select s t mem = Inr (res, out, t')"
  shows "select_loop 0 t mem [] = Inr (out, t')"
  using assms by (auto simp: execute_select_def split: sum.splits prod.splits)

lemma of_nat_row_less:
  assumes "j < unat (n :: u32)"
  shows "(of_nat j :: u32) < n" "unat (of_nat j :: u32) = j"
proof -
  have "unat n < 2 ^ 32" using unsigned_less [of n, where ?'a = nat] by simp
  with assms have j: "j < 2 ^ 32" by simp
  then show u: "unat (of_nat j :: u32) = j" by (simp add: unat_of_nat)
  with assms show "(of_nat j :: u32) < n" by (simp add: word_less_nat_alt)
qed

lemma execute_statement_total:
  assumes ok: "pager_ok (pager t)" and le: "num_rows t \<le> TABLE_MAX_ROWS"
    and strs: "\<forall>j. j < unat (num_rows t) \<longrightarrow> row_strings (row_at t mem (of_nat j))"
    and s: "s = select_statement \<or> (\<exists>r. s = insert_statement r \<and> row_ok r \<and> row_strings r)"
  shows "\<exists>res out t'. execute_statement s t mem = Inr (res, out, t') \<and>
      pager_ok (pager t') \<and> num_rows t' \<le> TABLE_MAX_ROWS \<and>
      (\<forall>j. j < unat (num_rows t') \<longrightarrow> row_strings (row_at t' mem (of_nat j)))"
proof -
  from ok have len: "length (pages (pager t)) = unat TABLE_MAX_PAGES"
    by (simp add: pager_ok_def)
  from s show ?thesis
  proof
    assume sel: "s = select_statement"
    then have ex: "execute_statement s t mem = execute_select s t mem"
      by (simp add: execute_statement_def select_statement_def)
    show ?thesis
    proof (cases "num_rows t = 0")
      case True
      then have "execute_statement s t mem = Inr (EXECUTE_TABLE_EMPTY, [], t)"
        by (simp add: ex execute_select_def)
      with ok le strs show ?thesis by blast
    next
      case False
      from execute_select_rows [OF len le False strs, of s] obtain t' where
        run: "execute_select s t mem =
          Inr (EXECUTE_SUCCESS, map (\<lambda>j. row_at t mem (of_nat j)) [0 ..< unat (num_rows t)], t')"
        and n: "num_rows t' = num_rows t"
        and same: "\<forall>j. j < TABLE_MAX_ROWS \<longrightarrow> row_at t' mem j = row_at t mem j"
        by blast
      from select_loop_pager_ok [OF ok le execute_select_Inr [OF False run]]
      have ok': "pager_ok (pager t')" .
      have "\<forall>j. j < unat (num_rows t') \<longrightarrow> row_strings (row_at t' mem (of_nat j))"
      proof (intro allI impI)
        fix j assume "j < unat (num_rows t')"
        with n have j: "j < unat (num_rows t)" by simp
        from of_nat_row_less(1) [OF j] le have "(of_nat j :: u32) < TABLE_MAX_ROWS" by simp
        with same have "row_at t' mem (of_nat j) = row_at t mem (of_nat j)" by simp
        with strs j show "row_strings (row_at t' mem (of_nat j))" by simp
      qed
      with run ok' n le ex show ?thesis by simp
    qed
  next
    assume "\<exists>r. s = insert_statement r \<and> row_ok r \<and> row_strings r"
    then obtain r where s: "s = insert_statement r" and r: "row_ok r" and rs: "row_strings r"
      by blast
    from s have rti: "row_to_insert s = Some r" by (simp add: insert_statement_def)
    have ex: "execute_statement s t mem =
        (case execute_insert s t mem of Inl e \<Rightarrow> Inl e | Inr (res, t') \<Rightarrow> Inr (res, [], t'))"
      by (simp add: s execute_statement_insert)
    show ?thesis
    proof (cases "num_rows t < TABLE_MAX_ROWS")
      case False
      then have "TABLE_MAX_ROWS \<le> num_rows t" by simp
      from execute_insert_full [OF this, of s mem]
      have "execute_statement s t mem = Inr (EXECUTE_TABLE_FULL, [], t)"
        by (simp add: ex)
      with ok le strs show ?thesis by blast
    next
      case True
      from execute_insert_content [OF True len rti, of mem] obtain t' where
        ins: "execute_insert s t mem = Inr (EXECUTE_SUCCESS, t')"
        by blast
      from execute_insert_not_full(2) [OF True ins] have n: "num_rows t' = num_rows t + 1" .
      from pager_ok_after_insert [OF True ok r rti ins] have ok': "pager_ok (pager t')" .
      from True have un: "unat (num_rows t + 1) = unat (num_rows t) + 1"
        by (rule unat_succ_row)
      from True un have le': "num_rows t' \<le> TABLE_MAX_ROWS"
        by (simp add: n word_le_nat_alt word_less_nat_alt)
      have "\<forall>j. j < unat (num_rows t') \<longrightarrow> row_strings (row_at t' mem (of_nat j))"
      proof (intro allI impI)
        fix j assume j: "j < unat (num_rows t')"
        from of_nat_row_less(1) [OF j] le' have "(of_nat j :: u32) < TABLE_MAX_ROWS" by simp
        from row_at_after_insert [OF True ok r rti ins this]
        have eq: "row_at t' mem (of_nat j) =
            (if of_nat j = num_rows t then r else row_at t mem (of_nat j))" .
        show "row_strings (row_at t' mem (of_nat j))"
        proof (cases "j < unat (num_rows t)")
          case True
          with strs eq rs show ?thesis by simp
        next
          case False
          with j n un have "j = unat (num_rows t)" by simp
          then have "(of_nat j :: u32) = num_rows t" by simp
          with eq rs show ?thesis by simp
        qed
      qed
      with ins ok' le' ex show ?thesis by simp
    qed
  qed
qed

lemma run_statements_total:
  "pager_ok (pager t) \<Longrightarrow> num_rows t \<le> TABLE_MAX_ROWS \<Longrightarrow>
   \<forall>j. j < unat (num_rows t) \<longrightarrow> row_strings (row_at t mem (of_nat j)) \<Longrightarrow>
   \<forall>s\<in>set ss. s = select_statement \<or> (\<exists>r. s = insert_statement r \<and> row_ok r \<and> row_strings r) \<Longrightarrow>
   \<exists>log t'. run_statements ss t mem = Inr (log, t') \<and> length log = length ss \<and>
      pager_ok (pager t') \<and> num_rows t' \<le> TABLE_MAX_ROWS"
proof (induction ss arbitrary: t)
  case Nil
  then show ?case by simp
next
  case (Cons s ss)
  from Cons.prems(4) have s: "s = select_statement \<or> (\<exists>r. s = insert_statement r \<and> row_ok r \<and> row_strings r)"
    and ss: "\<forall>s\<in>set ss. s = select_statement \<or> (\<exists>r. s = insert_statement r \<and> row_ok r \<and> row_strings r)"
    by simp_all
  from execute_statement_total [OF Cons.prems(1,2,3) s] obtain res out t1 where
    ex: "execute_statement s t mem = Inr (res, out, t1)"
    and ok1: "pager_ok (pager t1)" and le1: "num_rows t1 \<le> TABLE_MAX_ROWS"
    and strs1: "\<forall>j. j < unat (num_rows t1) \<longrightarrow> row_strings (row_at t1 mem (of_nat j))"
    by blast
  from Cons.IH [OF ok1 le1 strs1 ss] obtain log t' where
    "run_statements ss t1 mem = Inr (log, t')" "length log = length ss"
    "pager_ok (pager t')" "num_rows t' \<le> TABLE_MAX_ROWS"
    by blast
  with ex show ?case by simp
qed

lemma run_statements_from_built_table:
  assumes "\<forall>s\<in>set ss. s = select_statement \<or> (\<exists>r. s = insert_statement r \<and> row_ok r \<and> row_strings r)"
  shows "\<exists>log t'. run_statements ss (db_open_table []) mem = Inr (log, t') \<and>
      length log = length ss \<and> pager_ok (pager t') \<and> num_rows t' \<le> TABLE_MAX_ROWS"
proof -
  have "pager_ok (pager (db_open_table []))"
    by (simp add: pager_db_open_table pager_ok_pager_open)
  moreover have "num_rows (db_open_table []) \<le> TABLE_MAX_ROWS"
    by (simp add: num_rows_db_open_table_empty)
  moreover have "\<forall>j. j < unat (num_rows (db_open_table [])) \<longrightarrow>
      row_strings (row_at (db_open_table []) mem (of_nat j))"
    by (simp add: num_rows_db_open_table_nil)
  ultimately show ?thesis
    using assms by (rule run_statements_total)
qed

section \<open>The claims\<close>

text \<open>
  C1 (persistence), at an input where the code departs from it. One row is inserted into
  the table \<open>db_open\<close> builds for an empty file and the table is closed. The file then
  has the 4096 bytes of the whole page, so the table \<open>db_open\<close> builds for it has
  \<open>num_rows = 4096 div 293 = 13\<close>, and \<open>execute_select\<close> prints 13 rows, the inserted
  row first, instead of the one row that was inserted. (\<open>db_open\<close> moreover returns
  neither table to \<open>main\<close>.)
\<close>

theorem reopen_after_one_insert:
  "\<exists>t1 file out t2.
     execute_insert
       (insert_statement \<lparr> id_col = 1, username = 97 # replicate 32 0, email = 98 # replicate 255 0 \<rparr>)
       (db_open_table []) (heap_of 0) = Inr (EXECUTE_SUCCESS, t1) \<and>
     num_rows t1 = 1 \<and>
     db_close t1 = Inr file \<and>
     num_rows (db_open_table file) = 13 \<and>
     execute_select select_statement (db_open_table file) (heap_of 0) = Inr (EXECUTE_SUCCESS, out, t2) \<and>
     length out = 13 \<and>
     out ! 0 = \<lparr> id_col = 1, username = 97 # replicate 32 0, email = 98 # replicate 255 0 \<rparr>"
proof -
  let ?r = "\<lparr> id_col = 1, username = 97 # replicate 32 0, email = 98 # replicate 255 0 \<rparr>"
  let ?page = "serialize_row ?r (replicate 4096 0) 0"
  let ?t1 = "\<lparr> num_rows = 1,
         pager = (pager_open [])\<lparr>pages := (pages (pager_open []))[0 := Some ?page]\<rparr> \<rparr>"
  let ?t = "db_open_table ?page"
  have r: "row_ok ?r"
    by (simp add: row_ok_def offsets_val)
  have rs: "row_strings ?r"
    by (simp add: row_strings_def)
  have fits: "0 + unat ROW_SIZE \<le> length (replicate 4096 (0 :: byte))"
    by (simp add: unat_ROW_SIZE)
  have len: "length ?page = unat PAGE_SIZE"
    using length_serialize_row [OF r fits] by (simp add: unat_PAGE_SIZE)
  have ins: "execute_insert (insert_statement ?r) (db_open_table []) (heap_of 0) = Inr (EXECUTE_SUCCESS, ?t1)"
    using insert_into_empty [of ?r "heap_of 0"] by (simp add: malloc_heap_of unat_PAGE_SIZE)
  have close: "db_close ?t1 = Inr ?page"
    by (rule close_one_row [OF len])
  have un: "unat (num_rows ?t) = 13"
    using len by (simp add: num_rows_db_open_table unat_PAGE_SIZE)
  then have n13: "num_rows ?t = 13"
    by (simp add: word_unat_eq_iff)
  from un have le: "num_rows ?t \<le> TABLE_MAX_ROWS" and nz: "num_rows ?t \<noteq> 0"
    by (auto simp: word_le_nat_alt TABLE_MAX_ROWS_val)
  have strs: "\<forall>j. j < unat (num_rows ?t) \<longrightarrow> row_strings (row_at ?t (heap_of 0) (of_nat j))"
    using rows_after_reopen_one [OF r rs] by (simp add: un)
  from execute_select_rows [OF length_pages_db_open_table le nz strs, of select_statement]
  obtain t2 where sel: "execute_select select_statement ?t (heap_of 0) =
      Inr (EXECUTE_SUCCESS, map (\<lambda>j. row_at ?t (heap_of 0) (of_nat j)) [0 ..< unat (num_rows ?t)], t2)"
    by blast
  let ?out = "map (\<lambda>j. row_at ?t (heap_of 0) (of_nat j)) [0 ..< unat (num_rows ?t)]"
  have l13: "length ?out = 13"
    by (simp add: un)
  have "?out ! 0 = row_at ?t (heap_of 0) 0"
    by (simp add: un)
  also have "\<dots> = deserialize_row ?page 0"
    by (rule row_at_reopened_first [OF len])
  also have "\<dots> = ?r"
    by (rule deserialize_serialize [OF r fits])
  finally have first: "?out ! 0 = ?r" .
  have "num_rows ?t1 = 1"
    by simp
  with ins close n13 sel l13 first show ?thesis
    by blast
qed

text \<open>
  C2 (flush of a partial page), at an input where the code departs from it. One row is
  inserted into the table \<open>db_open\<close> builds for an empty file, with an allocator that
  returns blocks of \<open>0xFF\<close> bytes, and the table is closed. \<open>num_rows mod ROWS_PER_PAGE\<close>
  is 1, so the last page holds \<open>ROW_SIZE = 293\<close> valid bytes; \<open>db_close\<close> passes
  \<open>PAGE_SIZE\<close> to \<open>pager_flush\<close> and the file ends up with all 4096 bytes of the page,
  the 3803 bytes after the row being the \<open>0xFF\<close> of the uninitialised block.
\<close>

theorem close_flushes_whole_partial_page:
  "\<exists>t1 file.
     execute_insert
       (insert_statement \<lparr> id_col = 1, username = 97 # replicate 32 0, email = 98 # replicate 255 0 \<rparr>)
       (db_open_table []) (heap_of 255) = Inr (EXECUTE_SUCCESS, t1) \<and>
     num_rows t1 mod ROWS_PER_PAGE = 1 \<and>
     db_close t1 = Inr file \<and>
     length file = unat PAGE_SIZE \<and>
     drop (unat ROW_SIZE) file = replicate 3803 255"
proof -
  let ?r = "\<lparr> id_col = 1, username = 97 # replicate 32 0, email = 98 # replicate 255 0 \<rparr>"
  let ?page = "serialize_row ?r (replicate 4096 255) 0"
  let ?t1 = "\<lparr> num_rows = 1,
         pager = (pager_open [])\<lparr>pages := (pages (pager_open []))[0 := Some ?page]\<rparr> \<rparr>"
  have r: "row_ok ?r"
    by (simp add: row_ok_def offsets_val)
  have fits: "0 + unat ROW_SIZE \<le> length (replicate 4096 (255 :: byte))"
    by (simp add: unat_ROW_SIZE)
  have len: "length ?page = unat PAGE_SIZE"
    using length_serialize_row [OF r fits] by (simp add: unat_PAGE_SIZE)
  have ins: "execute_insert (insert_statement ?r) (db_open_table []) (heap_of 255) = Inr (EXECUTE_SUCCESS, ?t1)"
    using insert_into_empty [of ?r "heap_of 255"] by (simp add: malloc_heap_of unat_PAGE_SIZE)
  have rows: "num_rows ?t1 mod ROWS_PER_PAGE = 1"
    by (simp add: ROWS_PER_PAGE_val)
  have close: "db_close ?t1 = Inr ?page"
    by (rule close_one_row [OF len])
  have tail: "drop (unat ROW_SIZE) ?page = replicate 3803 255"
    unfolding serialize_row_bytes [OF r fits]
    by (simp add: length_bytes_of_u32 unat_ROW_SIZE)
  from ins rows close len tail show ?thesis
    by blast
qed


text \<open>
  C3 (page bound), at the input where the code departs from it. The page number
  \<open>TABLE_MAX_PAGES\<close> itself is not below \<open>TABLE_MAX_PAGES\<close>, yet the guard
  \<open>page_num > TABLE_MAX_PAGES\<close> lets it pass: \<open>get_page\<close> does not take the
  \<open>OUT_OF_BOUNDS\<close> exit and goes on to \<open>pages[100]\<close>, one past the last entry of the
  array.
\<close>

theorem get_page_at_TABLE_MAX_PAGES:
  "\<not> TABLE_MAX_PAGES < TABLE_MAX_PAGES \<and>
   get_page (pager_open []) TABLE_MAX_PAGES (heap_of 0) \<noteq> Inl OUT_OF_BOUNDS \<and>
   get_page (pager_open []) TABLE_MAX_PAGES (heap_of 0) = Inl UNDEFINED_BEHAVIOUR"
  by (simp add: get_page_def pager_open_def)

text \<open>
  C4 (loading a page), as amended. For a page number below \<open>TABLE_MAX_PAGES\<close> whose page
  is not resident, \<open>get_page\<close> stores one new buffer of \<open>PAGE_SIZE\<close> bytes in the page's
  entry and changes nothing else. It reads from the file exactly when the page number is
  at most \<open>(file_length + PAGE_SIZE - 1) div PAGE_SIZE\<close>, computed in 32 bits: the buffer
  then starts with the bytes the file has from the page's offset on, at most \<open>PAGE_SIZE\<close>
  of them, and the bytes after them (all of them when nothing is read) are those of the
  block as \<open>malloc\<close> returned it. Nothing sets them to zero. When \<open>file_length\<close> is the
  length of the file and the page's range lies beyond it, the buffer is the block as
  \<open>malloc\<close> returned it.
\<close>

theorem get_page_allocates:
  assumes "p < TABLE_MAX_PAGES" and "length (pages pgr) = unat TABLE_MAX_PAGES"
    and "pages pgr ! unat p = None"
  shows "\<exists>page avail.
      get_page pgr p mem = Inr (pgr\<lparr>pages := (pages pgr)[unat p := Some page]\<rparr>) \<and>
      length page = unat PAGE_SIZE \<and>
      avail = take (unat PAGE_SIZE) (drop (unat p * unat PAGE_SIZE) (fd pgr)) \<and>
      (if p \<le> (file_length pgr + PAGE_SIZE - 1) div PAGE_SIZE
       then page = avail @ drop (length avail) (malloc mem p (unat PAGE_SIZE))
       else page = malloc mem p (unat PAGE_SIZE)) \<and>
      (file_length pgr = of_nat (length (fd pgr)) \<and> length (fd pgr) < 2 ^ 32 \<and>
       file_length pgr \<le> p * PAGE_SIZE \<longrightarrow> page = malloc mem p (unat PAGE_SIZE))"
proof -
  let ?page = "page_content pgr mem p"
  let ?block = "malloc mem p (unat PAGE_SIZE)"
  let ?avail = "take (unat PAGE_SIZE) (drop (unat p * unat PAGE_SIZE) (fd pgr))"
  let ?reads = "p \<le> (file_length pgr + PAGE_SIZE - 1) div PAGE_SIZE"
  from assms(1) have p: "p \<le> TABLE_MAX_PAGES" by simp
  have a1: "get_page pgr p mem = Inr (pgr\<lparr>pages := (pages pgr)[unat p := Some ?page]\<rparr>)"
    by (rule get_page_content [OF assms(1,2)])
  have page: "?page = (if ?reads then ?avail @ drop (length ?avail) ?block else ?block)"
    using assms(3) by (simp add: page_content_def read_file_def Let_def unat_page_offset [OF p]
        unat_PAGE_SIZE)
  have a2: "length ?page = unat PAGE_SIZE"
    by (simp add: page length_malloc)
  have a3: "if ?reads then ?page = ?avail @ drop (length ?avail) ?block else ?page = ?block"
    by (simp add: page)
  have a4: "file_length pgr = of_nat (length (fd pgr)) \<and> length (fd pgr) < 2 ^ 32 \<and>
       file_length pgr \<le> p * PAGE_SIZE \<longrightarrow> ?page = ?block"
  proof
    assume h: "file_length pgr = of_nat (length (fd pgr)) \<and> length (fd pgr) < 2 ^ 32 \<and>
       file_length pgr \<le> p * PAGE_SIZE"
    then have fl: "file_length pgr = of_nat (length (fd pgr))" and lt: "length (fd pgr) < 2 ^ 32"
      and le: "file_length pgr \<le> p * PAGE_SIZE"
      by blast+
    from le have "unat (file_length pgr) \<le> unat (p * PAGE_SIZE)"
      by (simp add: word_le_nat_alt)
    moreover from lt have "unat (of_nat (length (fd pgr)) :: u32) = length (fd pgr)"
      by (simp add: unat_of_nat)
    ultimately have "length (fd pgr) \<le> unat p * unat PAGE_SIZE"
      by (simp add: fl unat_page_offset [OF p] unat_PAGE_SIZE)
    then have "drop (unat p * unat PAGE_SIZE) (fd pgr) = []"
      by simp
    then show "?page = ?block"
      by (simp add: page)
  qed
  from a1 a2 a3 a4 show ?thesis
    by blast
qed

theorem get_page_allocates_witness:
  "(0 :: u32) < TABLE_MAX_PAGES \<and> (1 :: u32) < TABLE_MAX_PAGES \<and>
   length (pages (pager_open (replicate 293 1))) = unat TABLE_MAX_PAGES \<and>
   pages (pager_open (replicate 293 1)) ! unat (0 :: u32) = None \<and>
   pages (pager_open (replicate 293 1)) ! unat (1 :: u32) = None \<and>
   file_length (pager_open (replicate 293 1)) =
     of_nat (length (fd (pager_open (replicate 293 1)))) \<and>
   length (fd (pager_open (replicate 293 1))) < 2 ^ 32 \<and>
   file_length (pager_open (replicate 293 1)) \<le> 1 * PAGE_SIZE \<and>
   get_page (pager_open (replicate 293 1)) 0 (heap_of 255) =
     Inr ((pager_open (replicate 293 1))\<lparr>pages := (pages (pager_open (replicate 293 1)))
       [unat (0 :: u32) := Some (replicate 293 1 @ replicate 3803 255)]\<rparr>) \<and>
   get_page (pager_open (replicate 293 1)) 1 (heap_of 255) =
     Inr ((pager_open (replicate 293 1))\<lparr>pages := (pages (pager_open (replicate 293 1)))
       [unat (1 :: u32) := Some (replicate 4096 255)]\<rparr>)"
proof -
  let ?pgr = "pager_open (replicate 293 1)"
  have h0: "(0 :: u32) < TABLE_MAX_PAGES" and h1: "(1 :: u32) < TABLE_MAX_PAGES"
    by (simp_all add: TABLE_MAX_PAGES_def)
  have len: "length (pages ?pgr) = unat TABLE_MAX_PAGES"
    by (simp add: pager_open_def)
  have n0: "pages ?pgr ! unat (0 :: u32) = None" and n1: "pages ?pgr ! unat (1 :: u32) = None"
    by (simp_all add: pager_open_def TABLE_MAX_PAGES_def)
  have f1: "file_length ?pgr = of_nat (length (fd ?pgr))" and f2: "length (fd ?pgr) < 2 ^ 32"
    and f3: "file_length ?pgr \<le> 1 * PAGE_SIZE"
    by (simp_all add: pager_open_def PAGE_SIZE_def)
  have reads: "(0 :: u32) \<le> (file_length ?pgr + PAGE_SIZE - 1) div PAGE_SIZE"
    by simp
  from get_page_allocates [of 0 ?pgr "heap_of 255", OF h0 len n0] obtain page0 avail where
    g0: "get_page ?pgr 0 (heap_of 255) = Inr (?pgr\<lparr>pages := (pages ?pgr)[unat (0 :: u32) := Some page0]\<rparr>)"
    and av: "avail = take (unat PAGE_SIZE) (drop (unat (0 :: u32) * unat PAGE_SIZE) (fd ?pgr))"
    and br: "if (0 :: u32) \<le> (file_length ?pgr + PAGE_SIZE - 1) div PAGE_SIZE
       then page0 = avail @ drop (length avail) (malloc (heap_of 255) 0 (unat PAGE_SIZE))
       else page0 = malloc (heap_of 255) 0 (unat PAGE_SIZE)"
    by blast
  from av have av': "avail = replicate 293 1"
    by (simp add: pager_open_def unat_PAGE_SIZE)
  from br reads have "page0 = avail @ drop (length avail) (malloc (heap_of 255) 0 (unat PAGE_SIZE))"
    by simp
  then have p0: "page0 = replicate 293 1 @ replicate 3803 255"
    by (simp add: av' malloc_heap_of unat_PAGE_SIZE)
  from get_page_allocates [of 1 ?pgr "heap_of 255", OF h1 len n1] obtain page1 where
    g1: "get_page ?pgr 1 (heap_of 255) = Inr (?pgr\<lparr>pages := (pages ?pgr)[unat (1 :: u32) := Some page1]\<rparr>)"
    and beyond: "file_length ?pgr = of_nat (length (fd ?pgr)) \<and> length (fd ?pgr) < 2 ^ 32 \<and>
       file_length ?pgr \<le> 1 * PAGE_SIZE \<longrightarrow> page1 = malloc (heap_of 255) 1 (unat PAGE_SIZE)"
    by blast
  from beyond f1 f2 f3 have "page1 = malloc (heap_of 255) 1 (unat PAGE_SIZE)"
    by blast
  then have p1: "page1 = replicate 4096 255"
    by (simp add: malloc_heap_of unat_PAGE_SIZE)
  from h0 h1 len n0 n1 f1 f2 f3 g0 [unfolded p0] g1 [unfolded p1] show ?thesis
    by (intro conjI)
qed

text \<open>
  The claim C4 as first stated has the new buffer zero-initialised. With an allocator
  that returns blocks of \<open>0xFF\<close> bytes, page 0 of an empty file is 4096 bytes \<open>0xFF\<close>,
  and page 0 of a file of 293 bytes (a short read) keeps \<open>0xFF\<close> in its last 3803 bytes.
\<close>

theorem get_page_block_not_zeroed:
  "get_page (pager_open []) 0 (heap_of 255) =
     Inr ((pager_open [])\<lparr>pages := (pages (pager_open []))[0 := Some (replicate 4096 255)]\<rparr>) \<and>
   get_page (pager_open (replicate 293 1)) 0 (heap_of 255) =
     Inr ((pager_open (replicate 293 1))\<lparr>pages := (pages (pager_open (replicate 293 1)))
       [0 := Some (replicate 293 1 @ replicate 3803 255)]\<rparr>) \<and>
   replicate 4096 (255 :: byte) \<noteq> replicate 4096 0 \<and>
   replicate 3803 (255 :: byte) \<noteq> replicate 3803 0"
  by (simp add: get_page_def pager_open_def malloc_heap_of read_file_def Let_def
      TABLE_MAX_PAGES_def PAGE_SIZE_def)

text \<open>
  C5 (round trip of the codec). A record whose username has at most 32 bytes and whose
  email has at most 255 bytes is held, each string with its terminating NUL, in the arrays
  of 33 and 256 bytes of a \<open>Row\<close>. Whatever these arrays contain, the row is read back
  unchanged from the slot it was serialized into: \<open>deserialize_row\<close> after
  \<open>serialize_row\<close> at the same place of a buffer that has room for the slot gives the
  row itself.
\<close>

theorem serialize_deserialize_roundtrip:
  assumes "row_ok r" and "dest + unat ROW_SIZE \<le> length buf"
  shows "deserialize_row (serialize_row r buf dest) dest = r"
  using assms by (rule deserialize_serialize)

theorem serialize_deserialize_roundtrip_witness:
  "row_ok \<lparr> id_col = 7, username = [98, 111, 98] @ replicate 30 0,
             email = [98, 64, 120, 46, 105, 111] @ replicate 250 0 \<rparr> \<and>
   293 + unat ROW_SIZE \<le> length (replicate 4096 (0 :: byte)) \<and>
   deserialize_row
     (serialize_row \<lparr> id_col = 7, username = [98, 111, 98] @ replicate 30 0,
                       email = [98, 64, 120, 46, 105, 111] @ replicate 250 0 \<rparr>
        (replicate 4096 0) 293) 293 =
     \<lparr> id_col = 7, username = [98, 111, 98] @ replicate 30 0,
       email = [98, 64, 120, 46, 105, 111] @ replicate 250 0 \<rparr>"
proof -
  let ?r = "\<lparr> id_col = 7, username = [98, 111, 98] @ replicate 30 0,
              email = [98, 64, 120, 46, 105, 111] @ replicate 250 0 \<rparr>"
  have ok: "row_ok ?r"
    by (simp add: row_ok_def offsets_val)
  have room: "293 + unat ROW_SIZE \<le> length (replicate 4096 (0 :: byte))"
    by (simp add: unat_ROW_SIZE)
  from ok room serialize_deserialize_roundtrip [OF ok room] show ?thesis
    by blast
qed

text \<open>
  C6 (append order): a defect of the code. \<open>db_open\<close> ends without returning the table
  it has built, so the table \<open>main\<close> works on is undefined. A session on a new, empty
  file that inserts a valid row and then selects therefore has no defined result, where
  the claim requires the select to yield exactly the inserted row. On the table
  \<open>db_open\<close> builds and fails to return, the same two statements do yield it.
\<close>

theorem insert_select_on_new_file:
  "db_open [] = Inl UNDEFINED_BEHAVIOUR \<and>
   main_session []
     [insert_statement \<lparr> id_col = 1, username = 97 # replicate 32 0, email = 98 # replicate 255 0 \<rparr>,
      select_statement] (heap_of 0) = Inl UNDEFINED_BEHAVIOUR \<and>
   (\<exists>t t'.
      run_statements
        [insert_statement \<lparr> id_col = 1, username = 97 # replicate 32 0, email = 98 # replicate 255 0 \<rparr>]
        (db_open_table []) (heap_of 0) = Inr ([(EXECUTE_SUCCESS, [])], t) \<and>
      execute_select select_statement t (heap_of 0) =
        Inr (EXECUTE_SUCCESS,
             [\<lparr> id_col = 1, username = 97 # replicate 32 0, email = 98 # replicate 255 0 \<rparr>], t'))"
proof -
  let ?r = "\<lparr> id_col = 1, username = 97 # replicate 32 0, email = 98 # replicate 255 0 \<rparr>"
  have a1: "db_open [] = Inl UNDEFINED_BEHAVIOUR"
    by (simp add: db_open_def)
  have a2: "main_session [] [insert_statement ?r, select_statement] (heap_of 0) =
      Inl UNDEFINED_BEHAVIOUR"
    by (rule main_session_undefined)
  have ok: "\<forall>r\<in>set [?r]. row_ok r"
    by (simp add: row_ok_def USERNAME_SIZE_def EMAIL_SIZE_def COLUMN_USERNAME_SIZE_def COLUMN_EMAIL_SIZE_def)
  have strs: "\<forall>r\<in>set [?r]. row_strings r"
    by (simp add: row_strings_def)
  have "length [?r] \<le> unat TABLE_MAX_ROWS"
    by (simp add: TABLE_MAX_ROWS_val)
  from select_after_inserts [OF ok strs _ this, of "heap_of 0"]
  have a3: "\<exists>t t'.
      run_statements [insert_statement ?r] (db_open_table []) (heap_of 0) =
        Inr ([(EXECUTE_SUCCESS, [])], t) \<and>
      execute_select select_statement t (heap_of 0) = Inr (EXECUTE_SUCCESS, [?r], t')"
    by auto
  show ?thesis
    by (intro conjI a1 a2 a3)
qed

text \<open>
  C7 (capacity). For every table and statement, \<open>execute_insert\<close> returns
  \<open>EXECUTE_TABLE_FULL\<close> exactly when \<open>num_rows\<close> has reached \<open>TABLE_MAX_ROWS\<close>, and then
  the table it leaves is the table it was given. After \<open>TABLE_MAX_ROWS\<close> inserts that all
  returned \<open>EXECUTE_SUCCESS\<close>, from any table, \<open>num_rows\<close> is \<open>TABLE_MAX_ROWS\<close> and the next
  insert returns \<open>EXECUTE_TABLE_FULL\<close> and changes nothing; on the table \<open>db_open\<close>
  builds for an empty file such a run of successful inserts exists for every list of that
  length.
\<close>

theorem insert_table_full:
  "((\<exists>t'. execute_insert s t mem = Inr (EXECUTE_TABLE_FULL, t')) \<longleftrightarrow> TABLE_MAX_ROWS \<le> num_rows t) \<and>
   (\<forall>t'. execute_insert s t mem = Inr (EXECUTE_TABLE_FULL, t') \<longrightarrow> t' = t) \<and>
   (\<forall>rs t0 log t1.
      length rs = unat TABLE_MAX_ROWS \<and>
      run_statements (map insert_statement rs) t0 mem = Inr (log, t1) \<and>
      (\<forall>e\<in>set log. fst e = EXECUTE_SUCCESS) \<longrightarrow>
      num_rows t1 = TABLE_MAX_ROWS \<and> execute_insert s t1 mem = Inr (EXECUTE_TABLE_FULL, t1)) \<and>
   (\<forall>rs. length rs = unat TABLE_MAX_ROWS \<longrightarrow>
      (\<exists>t1. run_statements (map insert_statement rs) (db_open_table []) mem =
        Inr (map (\<lambda>r. (EXECUTE_SUCCESS, [])) rs, t1)))"
proof (intro conjI)
  show "(\<exists>t'. execute_insert s t mem = Inr (EXECUTE_TABLE_FULL, t')) \<longleftrightarrow> TABLE_MAX_ROWS \<le> num_rows t"
  proof
    assume "\<exists>t'. execute_insert s t mem = Inr (EXECUTE_TABLE_FULL, t')"
    then obtain t' where ins: "execute_insert s t mem = Inr (EXECUTE_TABLE_FULL, t')" ..
    show "TABLE_MAX_ROWS \<le> num_rows t"
    proof (rule ccontr)
      assume "\<not> TABLE_MAX_ROWS \<le> num_rows t"
      then have "num_rows t < TABLE_MAX_ROWS" by simp
      from execute_insert_not_full(1) [OF this ins] show False by simp
    qed
  next
    assume "TABLE_MAX_ROWS \<le> num_rows t"
    from execute_insert_full [OF this] show "\<exists>t'. execute_insert s t mem = Inr (EXECUTE_TABLE_FULL, t')"
      by blast
  qed
  show "\<forall>t'. execute_insert s t mem = Inr (EXECUTE_TABLE_FULL, t') \<longrightarrow> t' = t"
  proof (intro allI impI)
    fix t'
    assume ins: "execute_insert s t mem = Inr (EXECUTE_TABLE_FULL, t')"
    show "t' = t"
    proof (cases "TABLE_MAX_ROWS \<le> num_rows t")
      case True
      from execute_insert_full [OF this, of s mem] ins show ?thesis by simp
    next
      case False
      then have "num_rows t < TABLE_MAX_ROWS" by simp
      from execute_insert_not_full(1) [OF this ins] show ?thesis by simp
    qed
  qed
  show "\<forall>rs t0 log t1.
      length rs = unat TABLE_MAX_ROWS \<and>
      run_statements (map insert_statement rs) t0 mem = Inr (log, t1) \<and>
      (\<forall>e\<in>set log. fst e = EXECUTE_SUCCESS) \<longrightarrow>
      num_rows t1 = TABLE_MAX_ROWS \<and> execute_insert s t1 mem = Inr (EXECUTE_TABLE_FULL, t1)"
  proof (intro allI impI)
    fix rs :: "Row list" and t0 log t1
    assume a: "length rs = unat TABLE_MAX_ROWS \<and>
      run_statements (map insert_statement rs) t0 mem = Inr (log, t1) \<and>
      (\<forall>e\<in>set log. fst e = EXECUTE_SUCCESS)"
    then have len: "length rs = 1300" by (simp add: TABLE_MAX_ROWS_val)
    then have "rs \<noteq> []" by auto
    with run_inserts_all_success [of rs t0 mem log t1] a len
    have "unat (num_rows t1) = unat (num_rows t0) + 1300" "unat (num_rows t1) \<le> 1300"
      by simp_all
    then have "unat (num_rows t1) = unat TABLE_MAX_ROWS"
      by (simp add: TABLE_MAX_ROWS_val)
    then have full: "num_rows t1 = TABLE_MAX_ROWS"
      by (simp add: word_unat_eq_iff)
    then have "TABLE_MAX_ROWS \<le> num_rows t1" by simp
    from full execute_insert_full [OF this]
    show "num_rows t1 = TABLE_MAX_ROWS \<and> execute_insert s t1 mem = Inr (EXECUTE_TABLE_FULL, t1)"
      by simp
  qed
  show "\<forall>rs. length rs = unat TABLE_MAX_ROWS \<longrightarrow>
      (\<exists>t1. run_statements (map insert_statement rs) (db_open_table []) mem =
        Inr (map (\<lambda>r. (EXECUTE_SUCCESS, [])) rs, t1))"
  proof (intro allI impI)
    fix rs :: "Row list"
    assume "length rs = unat TABLE_MAX_ROWS"
    then have "unat (num_rows (db_open_table [])) + length rs \<le> 1300"
      by (simp add: TABLE_MAX_ROWS_val num_rows_db_open_table_nil)
    from run_inserts_succeed [OF length_pages_db_open_table this]
    show "\<exists>t1. run_statements (map insert_statement rs) (db_open_table []) mem =
        Inr (map (\<lambda>r. (EXECUTE_SUCCESS, [])) rs, t1)" .
  qed
qed

theorem insert_table_full_witness:
  "\<exists>t1. run_statements
       (map insert_statement
         (replicate 1300 \<lparr> id_col = 1, username = 97 # replicate 32 0, email = 98 # replicate 255 0 \<rparr>))
       (db_open_table []) (heap_of 0) =
       Inr (replicate 1300 (EXECUTE_SUCCESS, []), t1) \<and>
     num_rows t1 = TABLE_MAX_ROWS \<and>
     execute_insert (insert_statement \<lparr> id_col = 2, username = replicate 33 0, email = replicate 256 0 \<rparr>)
       t1 (heap_of 0) = Inr (EXECUTE_TABLE_FULL, t1)"
proof -
  let ?r = "\<lparr> id_col = 1, username = 97 # replicate 32 0, email = 98 # replicate 255 0 \<rparr>"
  let ?s = "insert_statement \<lparr> id_col = 2, username = replicate 33 0, email = replicate 256 0 \<rparr>"
  let ?rs = "replicate 1300 ?r"
  note main = insert_table_full [of ?s "db_open_table []" "heap_of 0"]
  have len: "length ?rs = unat TABLE_MAX_ROWS"
    by (simp add: TABLE_MAX_ROWS_val)
  from main [THEN conjunct2, THEN conjunct2, THEN conjunct2, rule_format, OF len]
  obtain t1 where run: "run_statements (map insert_statement ?rs) (db_open_table []) (heap_of 0) =
       Inr (replicate 1300 (EXECUTE_SUCCESS, []), t1)"
    by (auto simp: map_replicate_const)
  with len have "length ?rs = unat TABLE_MAX_ROWS \<and>
      run_statements (map insert_statement ?rs) (db_open_table []) (heap_of 0) =
        Inr (replicate 1300 (EXECUTE_SUCCESS, []), t1) \<and>
      (\<forall>e\<in>set (replicate 1300 (EXECUTE_SUCCESS, [])). fst e = EXECUTE_SUCCESS)"
    by simp
  from main [THEN conjunct2, THEN conjunct2, THEN conjunct1, rule_format, OF this] run
  show ?thesis by blast
qed

text \<open>
  C8 (empty table), as amended. For every table, \<open>execute_select\<close> returns
  \<open>EXECUTE_TABLE_EMPTY\<close> exactly when \<open>num_rows\<close> is 0. On a table with
  \<open>0 < num_rows \<le> TABLE_MAX_ROWS\<close> (its \<open>pages\<close> array having the \<open>TABLE_MAX_PAGES\<close>
  entries of its C type) in which every row below \<open>num_rows\<close>, as the loop body of the
  select decodes it, has a NUL in its \<open>username\<close> and in its \<open>email\<close> array, it
  returns \<open>EXECUTE_SUCCESS\<close>. Both conditions are needed, as the two tables of the next
  theorem show. Nothing is stated of a freshly opened file: \<open>db_open\<close> returns no table.
\<close>

theorem select_table_empty:
  "((\<exists>out t'. execute_select s t mem = Inr (EXECUTE_TABLE_EMPTY, out, t')) \<longleftrightarrow> num_rows t = 0) \<and>
   (0 < num_rows t \<and> num_rows t \<le> TABLE_MAX_ROWS \<and>
    length (pages (pager t)) = unat TABLE_MAX_PAGES \<and>
    (\<forall>i row t1. i < num_rows t \<and> select_row t i mem = Inr (row, t1) \<longrightarrow>
       0 \<in> set (username row) \<and> 0 \<in> set (email row)) \<longrightarrow>
    (\<exists>out t'. execute_select s t mem = Inr (EXECUTE_SUCCESS, out, t')))"
proof -
  have a1: "(\<exists>out t'. execute_select s t mem = Inr (EXECUTE_TABLE_EMPTY, out, t')) \<longleftrightarrow> num_rows t = 0"
    by (auto simp: execute_select_def split: sum.splits prod.splits)
  have a2: "0 < num_rows t \<and> num_rows t \<le> TABLE_MAX_ROWS \<and>
    length (pages (pager t)) = unat TABLE_MAX_PAGES \<and>
    (\<forall>i row t1. i < num_rows t \<and> select_row t i mem = Inr (row, t1) \<longrightarrow>
       0 \<in> set (username row) \<and> 0 \<in> set (email row)) \<longrightarrow>
    (\<exists>out t'. execute_select s t mem = Inr (EXECUTE_SUCCESS, out, t'))"
  proof
    assume a: "0 < num_rows t \<and> num_rows t \<le> TABLE_MAX_ROWS \<and>
      length (pages (pager t)) = unat TABLE_MAX_PAGES \<and>
      (\<forall>i row t1. i < num_rows t \<and> select_row t i mem = Inr (row, t1) \<longrightarrow>
         0 \<in> set (username row) \<and> 0 \<in> set (email row))"
    then have nz: "num_rows t \<noteq> 0" and le: "num_rows t \<le> TABLE_MAX_ROWS"
      and len: "length (pages (pager t)) = unat TABLE_MAX_PAGES"
      and nul: "\<And>i row t1. i < num_rows t \<Longrightarrow> select_row t i mem = Inr (row, t1) \<Longrightarrow>
         0 \<in> set (username row) \<and> 0 \<in> set (email row)"
      by auto
    have strs: "\<forall>j. j < unat (num_rows t) \<longrightarrow> row_strings (row_at t mem (of_nat j))"
    proof (intro allI impI)
      fix j
      assume j: "j < unat (num_rows t)"
      with le have "j < 1300"
        by (simp add: word_le_nat_alt TABLE_MAX_ROWS_val)
      then have uj: "unat (of_nat j :: u32) = j"
        by (simp add: unat_of_nat)
      with j have lt: "(of_nat j :: u32) < num_rows t"
        by (simp add: word_less_nat_alt)
      with le have "(of_nat j :: u32) < TABLE_MAX_ROWS"
        by simp
      from nul [OF lt select_row_content [OF this len]]
      show "row_strings (row_at t mem (of_nat j))"
        by (simp add: row_strings_def)
    qed
    from execute_select_rows [OF len le nz strs, of s]
    show "\<exists>out t'. execute_select s t mem = Inr (EXECUTE_SUCCESS, out, t')"
      by blast
  qed
  show ?thesis
    by (intro conjI a1 a2)
qed

theorem select_table_empty_witness:
  "0 < num_rows \<lparr> num_rows = 1, pager = pager_open (replicate 293 0) \<rparr> \<and>
   num_rows \<lparr> num_rows = 1, pager = pager_open (replicate 293 0) \<rparr> \<le> TABLE_MAX_ROWS \<and>
   length (pages (pager \<lparr> num_rows = 1, pager = pager_open (replicate 293 0) \<rparr>)) =
     unat TABLE_MAX_PAGES \<and>
   (\<exists>out t'. execute_select select_statement
        \<lparr> num_rows = 1, pager = pager_open (replicate 293 0) \<rparr> (heap_of 0) =
      Inr (EXECUTE_SUCCESS, out, t')) \<and>
   num_rows \<lparr> num_rows = 0, pager = pager_open [] \<rparr> = 0 \<and>
   (\<exists>out t'. execute_select select_statement
        \<lparr> num_rows = 0, pager = pager_open [] \<rparr> (heap_of 0) =
      Inr (EXECUTE_TABLE_EMPTY, out, t'))"
proof -
  let ?t = "\<lparr> num_rows = 1, pager = pager_open (replicate 293 0) \<rparr>"
  let ?e = "\<lparr> num_rows = 0, pager = pager_open [] \<rparr>"
  have h1: "0 < num_rows ?t" and h2: "num_rows ?t \<le> TABLE_MAX_ROWS"
    by (simp_all add: TABLE_MAX_ROWS_val)
  have h3: "length (pages (pager ?t)) = unat TABLE_MAX_PAGES"
    by (simp add: pager_open_def)
  have lt: "(0 :: u32) < TABLE_MAX_ROWS"
    by (simp add: TABLE_MAX_ROWS_val)
  have h4: "\<forall>i row t1. i < num_rows ?t \<and> select_row ?t i (heap_of 0) = Inr (row, t1) \<longrightarrow>
       0 \<in> set (username row) \<and> 0 \<in> set (email row)"
  proof (intro allI impI)
    fix i :: u32 and row t1
    assume h: "i < num_rows ?t \<and> select_row ?t i (heap_of 0) = Inr (row, t1)"
    then have "unat i < 1"
      by (simp add: word_less_nat_alt)
    then have "i = 0"
      by (simp add: unat_eq_0)
    with h select_row_content [OF lt h3, of "heap_of 0"] have "row = row_at ?t (heap_of 0) 0"
      by simp
    then show "0 \<in> set (username row) \<and> 0 \<in> set (email row)"
      by (simp add: username_short_file email_short_file)
  qed
  from h1 h2 h3 h4 have "0 < num_rows ?t \<and> num_rows ?t \<le> TABLE_MAX_ROWS \<and>
      length (pages (pager ?t)) = unat TABLE_MAX_PAGES \<and>
      (\<forall>i row t1. i < num_rows ?t \<and> select_row ?t i (heap_of 0) = Inr (row, t1) \<longrightarrow>
         0 \<in> set (username row) \<and> 0 \<in> set (email row))"
    by blast
  from select_table_empty [THEN conjunct2, rule_format, OF this]
  have s1: "\<exists>out t'. execute_select select_statement ?t (heap_of 0) = Inr (EXECUTE_SUCCESS, out, t')" .
  have z: "num_rows ?e = 0"
    by simp
  from select_table_empty [of select_statement ?e "heap_of 0", THEN conjunct1] z
  have s2: "\<exists>out t'. execute_select select_statement ?e (heap_of 0) = Inr (EXECUTE_TABLE_EMPTY, out, t')"
    by blast
  show ?thesis
    by (intro conjI h1 h2 h3 s1 z s2)
qed

text \<open>
  The claim C8 as first stated lets the scan succeed on every table with a row, and has
  it return \<open>EXECUTE_TABLE_EMPTY\<close> on a freshly opened empty file. The table of 1314
  rows on a file of 385002 zero bytes is scanned up to row 1300, on page 100, which is
  past the end of \<open>pages\<close> (and row 1313 is on page 101, where \<open>get_page\<close> exits). The
  table of one row on a file of 293 bytes \<open>0x01\<close> holds a \<open>username\<close> without NUL, which
  \<open>print_row\<close> reads past its end. And a session on an empty file has no defined table
  to select from, since \<open>db_open\<close> returns none.
\<close>

theorem select_not_success:
  "0 < num_rows \<lparr> num_rows = 1314, pager = pager_open (replicate 385002 0) \<rparr> \<and>
   execute_select select_statement
     \<lparr> num_rows = 1314, pager = pager_open (replicate 385002 0) \<rparr> (heap_of 0) =
     Inl UNDEFINED_BEHAVIOUR \<and>
   0 < num_rows \<lparr> num_rows = 1, pager = pager_open (replicate 293 1) \<rparr> \<and>
   execute_select select_statement
     \<lparr> num_rows = 1, pager = pager_open (replicate 293 1) \<rparr> (heap_of 0) =
     Inl UNDEFINED_BEHAVIOUR \<and>
   main_session [] [select_statement] (heap_of 0) = Inl UNDEFINED_BEHAVIOUR"
proof -
  let ?t = "\<lparr> num_rows = 1314, pager = pager_open (replicate 385002 0) \<rparr>"
  have len: "length (pages (pager ?t)) = unat TABLE_MAX_PAGES"
    by (simp add: pager_open_def)
  have over: "TABLE_MAX_ROWS < num_rows ?t"
    by (simp add: TABLE_MAX_ROWS_val)
  from execute_select_overrun [OF len over, of select_statement "heap_of 0"]
    select_one_row_no_nul [of select_statement "heap_of 0"]
    main_session_undefined [of "[]" "[select_statement]" "heap_of 0"]
  show ?thesis
    by simp
qed

text \<open>
  C9 (frame of an insert). Let the table have fewer than \<open>TABLE_MAX_ROWS\<close> rows and let
  the insert of row \<open>r\<close> return \<open>EXECUTE_SUCCESS\<close>, where the row and the resident pages
  have the sizes of their C types (\<open>row_ok\<close>, \<open>pager_ok\<close>). Write \<open>p\<close> for
  \<open>num_rows div ROWS_PER_PAGE\<close> and \<open>off\<close> for \<open>(num_rows mod ROWS_PER_PAGE) * ROW_SIZE\<close>.
  Then \<open>num_rows\<close> has grown by one, the file is untouched and every entry of \<open>pages\<close>
  other than \<open>p\<close> is as before. Entry \<open>p\<close> holds a page of \<open>PAGE_SIZE\<close> bytes: if page
  \<open>p\<close> was resident, it is the page that was there with the \<open>ROW_SIZE\<close> bytes at \<open>off\<close>
  replaced by the bytes of \<open>r\<close>; if it was not, it is the page \<open>get_page\<close> loads, with
  the same replacement. Each row below the old \<open>num_rows\<close> that lies on a resident page
  is decoded to the same record from the page before and from the page after the insert,
  and the loop body of the select decodes every such row to the same record from the old
  and from the new table.
\<close>

theorem insert_writes_one_slot:
  assumes "num_rows t < TABLE_MAX_ROWS" and "execute_insert s t mem = Inr (EXECUTE_SUCCESS, t')"
    and "row_to_insert s = Some r" and "row_ok r" and "pager_ok (pager t)"
  shows "num_rows t' = num_rows t + 1 \<and>
    fd (pager t') = fd (pager t) \<and> file_length (pager t') = file_length (pager t) \<and>
    length (pages (pager t')) = length (pages (pager t)) \<and>
    (\<forall>k. k \<noteq> unat (num_rows t div ROWS_PER_PAGE) \<longrightarrow>
       pages (pager t') ! k = pages (pager t) ! k) \<and>
    (\<exists>new.
       pages (pager t') ! unat (num_rows t div ROWS_PER_PAGE) = Some new \<and>
       length new = unat PAGE_SIZE \<and>
       (\<forall>old. pages (pager t) ! unat (num_rows t div ROWS_PER_PAGE) = Some old \<longrightarrow>
          length old = unat PAGE_SIZE \<and>
          new = take (unat (num_rows t mod ROWS_PER_PAGE * ROW_SIZE)) old @
                bytes_of_u32 (id_col r) @ username r @ email r @
                drop (unat (num_rows t mod ROWS_PER_PAGE * ROW_SIZE) + unat ROW_SIZE) old) \<and>
       (pages (pager t) ! unat (num_rows t div ROWS_PER_PAGE) = None \<longrightarrow>
          (\<exists>pgr old.
             get_page (pager t) (num_rows t div ROWS_PER_PAGE) mem = Inr pgr \<and>
             pages pgr ! unat (num_rows t div ROWS_PER_PAGE) = Some old \<and>
             length old = unat PAGE_SIZE \<and>
             new = take (unat (num_rows t mod ROWS_PER_PAGE * ROW_SIZE)) old @
                   bytes_of_u32 (id_col r) @ username r @ email r @
                   drop (unat (num_rows t mod ROWS_PER_PAGE * ROW_SIZE) + unat ROW_SIZE) old))) \<and>
    (\<forall>i X. i < num_rows t \<and> pages (pager t) ! unat (i div ROWS_PER_PAGE) = Some X \<longrightarrow>
       (\<exists>X'. pages (pager t') ! unat (i div ROWS_PER_PAGE) = Some X' \<and>
          deserialize_row X' (unat (i mod ROWS_PER_PAGE * ROW_SIZE)) =
          deserialize_row X (unat (i mod ROWS_PER_PAGE * ROW_SIZE)))) \<and>
    (\<forall>i. i < num_rows t \<longrightarrow>
       (\<exists>row t1 t2. select_row t i mem = Inr (row, t1) \<and> select_row t' i mem = Inr (row, t2)))"
proof -
  let ?n = "num_rows t"
  let ?p = "?n div ROWS_PER_PAGE"
  let ?off = "unat (?n mod ROWS_PER_PAGE * ROW_SIZE)"
  let ?old = "page_content (pager t) mem ?p"
  let ?new = "serialize_row r ?old ?off"
  let ?pgr = "(pager t)\<lparr>pages := (pages (pager t))[unat ?p := Some ?old]\<rparr>"
  let ?slot = "\<lambda>X. take ?off X @ bytes_of_u32 (id_col r) @ username r @ email r @
      drop (?off + unat ROW_SIZE) X"
  note n = assms(1) and ins = assms(2) and s = assms(3) and r = assms(4) and ok = assms(5)
  from ok have len: "length (pages (pager t)) = unat TABLE_MAX_PAGES"
    by (simp add: pager_ok_def)
  have p_lt: "unat ?p < length (pages (pager t))"
    using row_page_in_bounds [OF n] len by (simp add: word_less_nat_alt)
  from ins execute_insert_content [OF n len s, of mem]
  have t': "t' = \<lparr> num_rows = ?n + 1,
      pager = (pager t)\<lparr>pages := (pages (pager t))[unat ?p := Some ?new]\<rparr> \<rparr>"
    by simp
  have old_len: "length ?old = unat PAGE_SIZE"
    by (rule length_page_content [OF ok row_page_in_bounds [OF n]])
  have fits: "?off + unat ROW_SIZE \<le> length ?old"
    using slot_fits [of ?n] old_len by simp
  have new_eq: "?new = ?slot ?old"
    by (rule serialize_row_bytes [OF r fits])
  have new_len: "length ?new = unat PAGE_SIZE"
    using length_serialize_row [OF r fits] old_len by simp
  have a1: "num_rows t' = ?n + 1"
    by (simp add: t')
  have a2: "fd (pager t') = fd (pager t)" and a3: "file_length (pager t') = file_length (pager t)"
    and a4: "length (pages (pager t')) = length (pages (pager t))"
    by (simp_all add: t')
  have a5: "\<forall>k. k \<noteq> unat ?p \<longrightarrow> pages (pager t') ! k = pages (pager t) ! k"
    by (simp add: t')
  have entry: "pages (pager t') ! unat ?p = Some ?new"
    using p_lt by (simp add: t')
  have resident: "length old = unat PAGE_SIZE \<and> ?new = ?slot old"
    if "pages (pager t) ! unat ?p = Some old" for old
  proof -
    from that have "?old = old"
      by (simp add: page_content_def)
    with old_len new_eq show ?thesis by simp
  qed
  have absent: "\<exists>pgr old. get_page (pager t) ?p mem = Inr pgr \<and> pages pgr ! unat ?p = Some old \<and>
      length old = unat PAGE_SIZE \<and> ?new = ?slot old"
  proof -
    have "get_page (pager t) ?p mem = Inr ?pgr"
      by (rule get_page_content [OF row_page_in_bounds [OF n] len])
    moreover have "pages ?pgr ! unat ?p = Some ?old"
      using p_lt by simp
    ultimately show ?thesis
      using old_len new_eq by blast
  qed
  have a6: "\<exists>new. pages (pager t') ! unat ?p = Some new \<and> length new = unat PAGE_SIZE \<and>
       (\<forall>old. pages (pager t) ! unat ?p = Some old \<longrightarrow>
          length old = unat PAGE_SIZE \<and> new = ?slot old) \<and>
       (pages (pager t) ! unat ?p = None \<longrightarrow>
          (\<exists>pgr old. get_page (pager t) ?p mem = Inr pgr \<and> pages pgr ! unat ?p = Some old \<and>
             length old = unat PAGE_SIZE \<and> new = ?slot old))"
    using entry new_len resident absent by blast
  have len': "length (pages (pager t')) = unat TABLE_MAX_PAGES"
    using len by (simp add: t')
  have a7: "\<forall>i X. i < ?n \<and> pages (pager t) ! unat (i div ROWS_PER_PAGE) = Some X \<longrightarrow>
       (\<exists>X'. pages (pager t') ! unat (i div ROWS_PER_PAGE) = Some X' \<and>
          deserialize_row X' (unat (i mod ROWS_PER_PAGE * ROW_SIZE)) =
          deserialize_row X (unat (i mod ROWS_PER_PAGE * ROW_SIZE)))"
  proof (intro allI impI)
    fix i X
    assume h: "i < ?n \<and> pages (pager t) ! unat (i div ROWS_PER_PAGE) = Some X"
    then have i: "i < ?n" and X: "pages (pager t) ! unat (i div ROWS_PER_PAGE) = Some X"
      by blast+
    show "\<exists>X'. pages (pager t') ! unat (i div ROWS_PER_PAGE) = Some X' \<and>
          deserialize_row X' (unat (i mod ROWS_PER_PAGE * ROW_SIZE)) =
          deserialize_row X (unat (i mod ROWS_PER_PAGE * ROW_SIZE))"
    proof (cases "unat (i div ROWS_PER_PAGE) = unat ?p")
      case False
      with a5 X show ?thesis by simp
    next
      case True
      with X have Xold: "?old = X"
        by (simp add: page_content_def)
      from i have "i \<noteq> ?n" by simp
      then have "unat i \<noteq> unat ?n" by (simp add: word_unat_eq_iff)
      with True have "unat i mod 13 \<noteq> unat ?n mod 13"
        by (auto simp: unat_row_page dest: div_mod_13_eq)
      from slots_apart [OF this]
      have "deserialize_row ?new (unat (i mod ROWS_PER_PAGE * ROW_SIZE)) =
          deserialize_row ?old (unat (i mod ROWS_PER_PAGE * ROW_SIZE))"
        by (rule deserialize_serialize_other [OF r fits])
      with True entry Xold show ?thesis by simp
    qed
  qed
  have a8: "\<forall>i. i < ?n \<longrightarrow>
       (\<exists>row t1 t2. select_row t i mem = Inr (row, t1) \<and> select_row t' i mem = Inr (row, t2))"
  proof (intro allI impI)
    fix i
    assume i: "i < ?n"
    with n have i_lt: "i < TABLE_MAX_ROWS" by simp
    from i have "i \<noteq> ?n" by simp
    with row_at_after_insert [OF n ok r s ins i_lt]
    have "row_at t' mem i = row_at t mem i" by simp
    with select_row_content [OF i_lt len, of mem] select_row_content [OF i_lt len', of mem]
    show "\<exists>row t1 t2. select_row t i mem = Inr (row, t1) \<and> select_row t' i mem = Inr (row, t2)"
      by simp
  qed
  show ?thesis
    by (intro conjI a1 a2 a3 a4 a5 a6 a7 a8)
qed

theorem insert_writes_one_slot_witness:
  "num_rows \<lparr> num_rows = 1,
      pager = (pager_open [])\<lparr>pages := (pages (pager_open []))[0 := Some (replicate 4096 7)]\<rparr> \<rparr>
     < TABLE_MAX_ROWS \<and>
   row_ok \<lparr> id_col = 2, username = 97 # replicate 32 0, email = 98 # replicate 255 0 \<rparr> \<and>
   pager_ok (pager \<lparr> num_rows = 1,
      pager = (pager_open [])\<lparr>pages := (pages (pager_open []))[0 := Some (replicate 4096 7)]\<rparr> \<rparr>) \<and>
   (\<exists>t' new.
      execute_insert
        (insert_statement \<lparr> id_col = 2, username = 97 # replicate 32 0, email = 98 # replicate 255 0 \<rparr>)
        \<lparr> num_rows = 1,
          pager = (pager_open [])\<lparr>pages := (pages (pager_open []))[0 := Some (replicate 4096 7)]\<rparr> \<rparr>
        (heap_of 0) = Inr (EXECUTE_SUCCESS, t') \<and>
      num_rows t' = 2 \<and>
      pages (pager t') ! 0 = Some new \<and>
      new = replicate 293 7 @
            bytes_of_u32 2 @ (97 # replicate 32 0) @ (98 # replicate 255 0) @
            replicate 3510 7)"
proof -
  let ?r = "\<lparr> id_col = 2, username = 97 # replicate 32 0, email = 98 # replicate 255 0 \<rparr>"
  let ?t = "\<lparr> num_rows = 1,
      pager = (pager_open [])\<lparr>pages := (pages (pager_open []))[0 := Some (replicate 4096 7)]\<rparr> \<rparr>"
  have n: "num_rows ?t < TABLE_MAX_ROWS"
    by (simp add: TABLE_MAX_ROWS_val)
  have r: "row_ok ?r"
    by (simp add: row_ok_def offsets_val)
  have "length (replicate 4096 (7 :: byte)) = unat PAGE_SIZE"
    by (simp add: unat_PAGE_SIZE)
  from pager_ok_update [OF pager_ok_pager_open this, of "[]" 0]
  have ok: "pager_ok (pager ?t)"
    by simp
  have len: "length (pages (pager ?t)) = unat TABLE_MAX_PAGES"
    by (simp add: pager_open_def)
  have s: "row_to_insert (insert_statement ?r) = Some ?r"
    by (simp add: insert_statement_def)
  from execute_insert_content [OF n len s, of "heap_of 0"] obtain t' where
    ins: "execute_insert (insert_statement ?r) ?t (heap_of 0) = Inr (EXECUTE_SUCCESS, t')"
    by blast
  note main = insert_writes_one_slot [OF n ins s r ok]
  have p: "unat (num_rows ?t div ROWS_PER_PAGE) = 0"
    and off: "unat (num_rows ?t mod ROWS_PER_PAGE * ROW_SIZE) = 293"
    by (simp_all add: ROWS_PER_PAGE_val ROW_SIZE_val)
  have old: "pages (pager ?t) ! 0 = Some (replicate 4096 7)"
    by (simp add: pager_open_def TABLE_MAX_PAGES_def)
  from main have "num_rows t' = num_rows ?t + 1"
    by blast
  then have n2: "num_rows t' = 2"
    by simp
  from main obtain new where new: "pages (pager t') ! unat (num_rows ?t div ROWS_PER_PAGE) = Some new"
    and frame: "\<forall>old. pages (pager ?t) ! unat (num_rows ?t div ROWS_PER_PAGE) = Some old \<longrightarrow>
          length old = unat PAGE_SIZE \<and>
          new = take (unat (num_rows ?t mod ROWS_PER_PAGE * ROW_SIZE)) old @
                bytes_of_u32 (id_col ?r) @ username ?r @ email ?r @
                drop (unat (num_rows ?t mod ROWS_PER_PAGE * ROW_SIZE) + unat ROW_SIZE) old"
    by blast
  from frame old have "new = take 293 (replicate 4096 7) @
      bytes_of_u32 (id_col ?r) @ username ?r @ email ?r @ drop (293 + unat ROW_SIZE) (replicate 4096 7)"
    unfolding p off by blast
  then have "new = replicate 293 7 @
            bytes_of_u32 2 @ (97 # replicate 32 0) @ (98 # replicate 255 0) @ replicate 3510 7"
    by (simp add: unat_ROW_SIZE)
  with n r ok ins n2 new [unfolded p] show ?thesis
    by blast
qed

text \<open>
  C10 (capacity invariant): a defect of the code, the one of C6. The table a session
  starts from is the value of the call of \<open>db_open\<close>, which returns nothing: the first
  statement of a session on a new, empty file reads \<open>num_rows\<close> through an undefined
  pointer, so no row count is bounded and the slot the insert addresses is arbitrary,
  where the claim requires \<open>num_rows \<le> TABLE_MAX_ROWS\<close> and pages below
  \<open>TABLE_MAX_PAGES\<close>. On the table \<open>db_open\<close> builds and fails to return, every
  statement list built of valid inserts and selects runs to its end (no page at or
  above \<open>TABLE_MAX_PAGES\<close> is asked of \<open>get_page\<close>) and leaves
  \<open>num_rows \<le> TABLE_MAX_ROWS\<close>; the second half of the theorem shows it for a
  session of three statements, lemma \<open>run_statements_from_built_table\<close> for all.
\<close>

theorem session_on_new_file_undefined:
  "main_session []
     [insert_statement \<lparr> id_col = 7, username = 120 # replicate 32 0, email = 121 # replicate 255 0 \<rparr>,
      select_statement, select_statement] (heap_of 0) = Inl UNDEFINED_BEHAVIOUR \<and>
   (\<exists>log t.
      run_statements
        [insert_statement \<lparr> id_col = 7, username = 120 # replicate 32 0, email = 121 # replicate 255 0 \<rparr>,
         select_statement, select_statement] (db_open_table []) (heap_of 0) = Inr (log, t) \<and>
      length log = 3 \<and> num_rows t \<le> TABLE_MAX_ROWS)"
proof -
  let ?r = "\<lparr> id_col = 7, username = 120 # replicate 32 0, email = 121 # replicate 255 0 \<rparr>"
  let ?ss = "[insert_statement ?r, select_statement, select_statement]"
  have a1: "main_session [] ?ss (heap_of 0) = Inl UNDEFINED_BEHAVIOUR"
    by (rule main_session_undefined)
  have r: "row_ok ?r \<and> row_strings ?r"
    by (simp add: row_ok_def row_strings_def USERNAME_SIZE_def EMAIL_SIZE_def COLUMN_USERNAME_SIZE_def COLUMN_EMAIL_SIZE_def)
  then have "\<forall>s\<in>set ?ss. s = select_statement \<or>
      (\<exists>r. s = insert_statement r \<and> row_ok r \<and> row_strings r)"
    by auto
  from run_statements_from_built_table [OF this, of "heap_of 0"] obtain log t where
    "run_statements ?ss (db_open_table []) (heap_of 0) = Inr (log, t)" "length log = length ?ss"
    "pager_ok (pager t)" "num_rows t \<le> TABLE_MAX_ROWS"
    by blast
  moreover have "length ?ss = 3"
    by simp
  ultimately have a2: "\<exists>log t. run_statements ?ss (db_open_table []) (heap_of 0) = Inr (log, t) \<and>
      length log = 3 \<and> num_rows t \<le> TABLE_MAX_ROWS"
    by metis
  show ?thesis
    by (intro conjI a1 a2)
qed

end
